theory Spec2Isabelle
  imports Main
begin

section \<open>Errors\<close>

text \<open>
  A Go \<open>error\<close> value is either \<open>nil\<close> or an error object. A non-nil error is modelled by
  the datatype below (its message, or a prefix wrapped around another error as
  \<open>fmt.Errorf("...: %w", err)\<close> builds it); a possibly-nil error is an \<open>error option\<close>,
  with \<open>None\<close> for \<open>nil\<close>.
\<close>

datatype error = Error string | Wrapped string error

fun Error_msg :: "error \<Rightarrow> string" where
  "Error_msg (Error msg) = msg"
| "Error_msg (Wrapped prefix e) = prefix @ Error_msg e"


section \<open>health/health.go: the status registry\<close>

text \<open>
  The package-level variables \<open>m\<close> (error key to error, or nil for no error) and
  \<open>watchers\<close> form the state. A key that is present with a nil error is \<open>Some None\<close>; a key
  that is absent is \<open>None\<close>. A watcher is identified by the handle \<open>RegisterWatcher\<close>
  allocated for it; \<open>go cb(key, err)\<close> for the callback registered under handle \<open>w\<close> is
  recorded as the started call \<open>(w, key, err)\<close>. All functions hold \<open>mu\<close> for their whole
  body, so each is one atomic state transformer.
\<close>

record health =
  m :: "string \<rightharpoonup> error option"
  watchers :: "nat set"

definition RegisterWatcher :: "nat \<Rightarrow> health \<Rightarrow> health" where
  "RegisterWatcher handle h = h\<lparr>watchers := insert handle (watchers h)\<rparr>"

definition unregister :: "nat \<Rightarrow> health \<Rightarrow> health" where
  "unregister handle h = h\<lparr>watchers := watchers h - {handle}\<rparr>"

definition get_health :: "string \<Rightarrow> health \<Rightarrow> error option" where
  "get_health key h = (case m h key of None \<Rightarrow> None | Some v \<Rightarrow> v)"

definition set_health ::
  "string \<Rightarrow> error option \<Rightarrow> health \<Rightarrow> health \<times> (nat \<times> string \<times> error option) set" where
  "set_health key err h =
     (let ok = (m h key \<noteq> None);
          old = (case m h key of None \<Rightarrow> None | Some v \<Rightarrow> v)
      in if \<not> ok \<and> err = None then (h\<lparr>m := (m h)(key \<mapsto> None)\<rparr>, {})
         else if ok \<and> ((old = None) = (err = None)) then
           ((if err \<noteq> None then h\<lparr>m := (m h)(key \<mapsto> err)\<rparr> else h), {})
         else (h\<lparr>m := (m h)(key \<mapsto> err)\<rparr>, (\<lambda>w. (w, key, err)) ` watchers h))"

section \<open>wgengine/router/router\_windows.go: the firewall tweaker\<close>

subsection \<open>State\<close>

text \<open>
  The mutex-guarded fields of \<open>firewallTweaker\<close>. A Go slice of strings is a
  \<open>string list\<close>; the nil slice and the empty slice both have length 0 and are both \<open>[]\<close>
  (the code only takes \<open>len\<close>, ranges and indexes).
\<close>

record firewallTweaker =
  didProcRule :: bool
  running :: bool
  known :: bool
  want :: "string list"
  lastVal :: "string list"

definition strsEqual :: "string list \<Rightarrow> string list \<Rightarrow> bool" where
  "strsEqual a b =
     (if length a \<noteq> length b then False
      else list_all (\<lambda>i. a ! i = b ! i) [0..<length a])"

subsection \<open>Firewall commands\<close>

text \<open>
  The argument lists handed to \<open>runFirewall\<close> (which prefixes them with
  \<open>advfirewall firewall\<close> and runs \<open>netsh\<close>). The observable trace of a tweaker is the
  list of these calls, each with the error it returned.
\<close>

definition delIn_args :: "string list" where
  "delIn_args = [''delete'', ''rule'', ''name=Tailscale-In'', ''dir=in'']"

definition delProc_args :: "string list" where
  "delProc_args = [''delete'', ''rule'', ''name=Tailscale-Process'', ''dir=in'']"

definition addProc_args :: "string \<Rightarrow> string list" where
  "addProc_args exe =
     [''add'', ''rule'', ''name=Tailscale-Process'', ''dir=in'', ''action=allow'',
      ''edge=yes'', ''program='' @ exe, ''protocol=udp'', ''profile=any'', ''enable=yes'']"

definition addIn_args :: "string \<Rightarrow> string list" where
  "addIn_args cidr =
     [''add'', ''rule'', ''name=Tailscale-In'', ''dir=in'', ''action=allow'',
      ''localip='' @ cidr, ''profile=private'', ''enable=yes'']"

type_synonym fwcall = "string list \<times> error option"

definition isAddProc :: "fwcall \<Rightarrow> bool" where
  "isAddProc c = (take 3 (fst c) = [''add'', ''rule'', ''name=Tailscale-Process''])"

subsection \<open>The doAsyncSet goroutine, one external action at a time\<close>

text \<open>
  A \<open>doAsyncSet\<close> goroutine is modelled by its program point and local variables. A step
  is either one critical section (everything done between \<open>ft.mu.Lock()\<close> and the next
  \<open>ft.mu.Unlock()\<close>, atomic because every access to the fields is under \<open>ft.mu\<close>) or one
  call that leaves the goroutine (\<open>runFirewall\<close>, \<open>os.Executable\<close>, \<open>bo.BackOff\<close>) with
  the lock released. The result of such a call is supplied by the environment.

  \<^item> \<open>PTop\<close>: started, about to lock and run the test at the head of the first iteration;
  \<^item> \<open>PClear val needProcRule\<close>: about to delete the Tailscale-In rules;
  \<^item> \<open>PProcDel val\<close>: about to delete any prior Tailscale-Process rule;
  \<^item> \<open>PExe val\<close>: about to call \<open>os.Executable\<close>;
  \<^item> \<open>PProcAdd val\<close>: about to add the Tailscale-Process rule;
  \<^item> \<open>PMark val\<close>: the add succeeded, about to lock and set \<open>didProcRule\<close>;
  \<^item> \<open>PAdd val cidr rest\<close>: in the range loop over \<open>val\<close>, about to add the rule for
    \<open>cidr\<close>, with \<open>rest\<close> still to come;
  \<^item> \<open>PBackoff val err\<close>: about to call \<open>bo.BackOff(ctx, err)\<close>;
  \<^item> \<open>PCommit val err\<close>: about to lock, store \<open>lastVal\<close> and \<open>known\<close>, and run the test
    at the head of the next iteration in the same critical section.
\<close>

datatype pc =
    PTop
  | PClear "string list" bool
  | PProcDel "string list"
  | PExe "string list"
  | PProcAdd "string list"
  | PMark "string list"
  | PAdd "string list" string "string list"
  | PBackoff "string list" "error option"
  | PCommit "string list" "error option"

text \<open>Control flow between the calls of one iteration (no shared state is touched).\<close>

definition afterProc :: "string list \<Rightarrow> pc" where
  "afterProc val = (case val of [] \<Rightarrow> PBackoff val None | cidr # rest \<Rightarrow> PAdd val cidr rest)"

definition afterClear :: "string list \<Rightarrow> bool \<Rightarrow> pc" where
  "afterClear val needProcRule = (if needProcRule then PProcDel val else afterProc val)"

definition afterTop :: "string list \<Rightarrow> bool \<Rightarrow> bool \<Rightarrow> pc" where
  "afterTop val needClear needProcRule =
     (if needClear then PClear val needProcRule else afterClear val needProcRule)"

text \<open>
  The head of the \<open>for\<close> loop (lines 216 to 225), run with the lock held: \<open>None\<close> for
  the program point means the goroutine has returned.
\<close>

definition loop_head :: "firewallTweaker \<Rightarrow> firewallTweaker \<times> pc option" where
  "loop_head f =
     (let val = want f in
      if known f \<and> strsEqual (lastVal f) val then (f\<lparr>running := False\<rparr>, None)
      else
        let needClear = (\<not> known f \<or> length (lastVal f) > 0 \<or> length val = 0);
            needProcRule = (\<not> didProcRule f)
        in (f, Some (afterTop val needClear needProcRule)))"

text \<open>
  One step of the goroutine (lines 214 to 284). \<open>exe\<close> is the path \<open>os.Executable\<close> reports for this process,
  \<open>res\<close> the error returned by the call made in this step (ignored by the steps that make
  no call or whose call returns none). The third component is the \<open>runFirewall\<close> call
  issued, if any.
\<close>

fun doAsyncSet_step ::
  "string \<Rightarrow> error option \<Rightarrow> pc \<Rightarrow> firewallTweaker \<Rightarrow> firewallTweaker \<times> pc option \<times> fwcall list" where
  "doAsyncSet_step exe res PTop f = (case loop_head f of (f', p) \<Rightarrow> (f', p, []))"
| "doAsyncSet_step exe res (PClear val needProcRule) f =
     (f, Some (afterClear val needProcRule), [(delIn_args, res)])"
| "doAsyncSet_step exe res (PProcDel val) f = (f, Some (PExe val), [(delProc_args, res)])"
| "doAsyncSet_step exe res (PExe val) f =
     (if res \<noteq> None then (f, Some (afterProc val), []) else (f, Some (PProcAdd val), []))"
| "doAsyncSet_step exe res (PProcAdd val) f =
     (if res \<noteq> None then (f, Some (afterProc val), [(addProc_args exe, res)])
      else (f, Some (PMark val), [(addProc_args exe, res)]))"
| "doAsyncSet_step exe res (PMark val) f = (f\<lparr>didProcRule := True\<rparr>, Some (afterProc val), [])"
| "doAsyncSet_step exe res (PAdd val cidr rest) f =
     (if res \<noteq> None then (f, Some (PBackoff val res), [(addIn_args cidr, res)])
      else (case rest of
              [] \<Rightarrow> (f, Some (PBackoff val None), [(addIn_args cidr, res)])
            | cidr' # rest' \<Rightarrow> (f, Some (PAdd val cidr' rest'), [(addIn_args cidr, res)])))"
| "doAsyncSet_step exe res (PBackoff val err) f = (f, Some (PCommit val err), [])"
| "doAsyncSet_step exe res (PCommit val err) f =
     (case loop_head (f\<lparr>lastVal := val, known := (err = None)\<rparr>) of (f', p) \<Rightarrow> (f', p, []))"

subsection \<open>A tweaker with its goroutines\<close>

text \<open>
  \<open>loops\<close> holds the live \<open>doAsyncSet\<close> goroutines of one tweaker (a goroutine that returns
  is removed), \<open>trace\<close> the \<open>runFirewall\<close> calls made so far, oldest first.
\<close>

record tweaker =
  ft :: firewallTweaker
  loops :: "pc list"
  trace :: "fwcall list"

definition newTweaker :: tweaker where
  "newTweaker =
     \<lparr>ft = \<lparr>didProcRule = False, running = False, known = False, want = [], lastVal = []\<rparr>,
      loops = [], trace = []\<rparr>"

text \<open>
  \<open>firewallTweaker.set\<close> (lines 181 to 199), one critical section; \<open>go ft.doAsyncSet()\<close>
  adds a goroutine. \<open>clear\<close> is \<open>set(nil)\<close>.
\<close>

definition set_ft :: "string list \<Rightarrow> tweaker \<Rightarrow> tweaker" where
  "set_ft cidrs s =
     (let f = (ft s)\<lparr>want := cidrs\<rparr> in
      if running f then s\<lparr>ft := f\<rparr>
      else s\<lparr>ft := f\<lparr>running := True\<rparr>, loops := loops s @ [PTop]\<rparr>)"

definition clear :: "tweaker \<Rightarrow> tweaker" where
  "clear s = set_ft [] s"

text \<open>
  Events of an execution: a call of \<open>set\<close> from any thread, or the next step of the
  \<open>i\<close>-th live goroutine together with the result of the call it makes. A step of a
  goroutine that does not exist leaves the state as it is. Every interleaving of \<open>set\<close>
  calls with the goroutines, and every behaviour of the commands, is a list of events.
\<close>

datatype event = SetCall "string list" | LoopStep nat "error option"

definition remove_nth :: "nat \<Rightarrow> 'a list \<Rightarrow> 'a list" where
  "remove_nth i xs = take i xs @ drop (Suc i) xs"

fun step :: "string \<Rightarrow> event \<Rightarrow> tweaker \<Rightarrow> tweaker" where
  "step exe (SetCall cidrs) s = set_ft cidrs s"
| "step exe (LoopStep i res) s =
     (if i < length (loops s) then
        (case doAsyncSet_step exe res (loops s ! i) (ft s) of
           (f', None, out) \<Rightarrow>
             s\<lparr>ft := f', loops := remove_nth i (loops s), trace := trace s @ out\<rparr>
         | (f', Some p, out) \<Rightarrow>
             s\<lparr>ft := f', loops := (loops s)[i := p], trace := trace s @ out\<rparr>)
      else s)"

definition run :: "string \<Rightarrow> tweaker \<Rightarrow> event list \<Rightarrow> tweaker" where
  "run exe s es = foldl (\<lambda>s e. step exe e s) s es"

fun isSetCall :: "event \<Rightarrow> bool" where
  "isSetCall (SetCall cidrs) = True"
| "isSetCall (LoopStep i res) = False"

section \<open>wgengine/router/router\_windows.go: the router\<close>

subsection \<open>Configuration\<close>

text \<open>
  Modelled from the spec: \<open>Config\<close> and the prefix type of its fields are declared outside
  the files at hand. A \<open>Config\<close> has \<open>LocalAddrs\<close>, the "IP prefixes assigned to the tunnel
  interface", \<open>Routes\<close>, the "IP prefixes to be routed through the tunnel, where a prefix
  with bit-length 0 denotes default route", and \<open>DNS\<close>, an "opaque DNS configuration". The
  code reads a prefix's \<open>Bits\<close> and calls its \<open>String\<close> method; that method is a parameter
  \<open>str\<close> of the model. The DNS configuration is only passed on.
\<close>

record cidr =
  IP :: string
  Bits :: nat

record dnsConfig =
  Nameservers :: "string list"
  Domains :: "string list"

record Config =
  LocalAddrs :: "cidr list"
  Routes :: "cidr list"
  DNS :: dnsConfig

text \<open>
  Modelled from the spec: \<open>shutdownConfig\<close>, declared outside the files at hand, is "a sentinel
  shutdown configuration equivalent to all fields empty".
\<close>

definition shutdownConfig :: Config where
  "shutdownConfig = \<lparr>LocalAddrs = [], Routes = [], DNS = \<lparr>Nameservers = [], Domains = []\<rparr>\<rparr>"

subsection \<open>State and collaborators\<close>

text \<open>
  The router's mutable fields, together with two observation logs: \<open>logf\<close>, the messages
  passed to \<open>r.logf\<close>, and \<open>calls\<close>, the calls made to the firewall tweaker and to the
  collaborators, in order. The tweaker is held with its goroutines, which proceed by
  \<open>step\<close> events independently of the router's methods. The results of the collaborators
  are supplied by the environment of each call.
\<close>

datatype call =
    FirewallSet "string list"
  | ConfigureInterface Config
  | DnsSet dnsConfig
  | DnsDown
  | EnableFirewall
  | DisableFirewall
  | MonitorDefaultRoutes
  | Unregister nat

record winRouter =
  firewall :: tweaker
  wgFirewallEnabled :: bool
  routeChangeCallback :: "nat option"
  logf :: "string list"
  calls :: "call list"

record set_env =
  configureInterface_res :: "error option"
  dns_Set_res :: "error option"
  EnableFirewall_res :: "error option"
  DisableFirewall_res :: "error option"

record up_env =
  monitorDefaultRoutes_res :: "nat option \<times> error option"
  elapsed :: string

record close_env =
  dns_Down_res :: "error option"

subsection \<open>Up\<close>

definition winRouter_Up :: "up_env \<Rightarrow> winRouter \<Rightarrow> error option \<times> winRouter" where
  "winRouter_Up env r =
     (let r1 = r\<lparr>firewall := clear (firewall r), calls := calls r @ [FirewallSet []]\<rparr>;
          cb = fst (monitorDefaultRoutes_res env);
          err = snd (monitorDefaultRoutes_res env);
          r2 = r1\<lparr>routeChangeCallback := cb, calls := calls r1 @ [MonitorDefaultRoutes]\<rparr>
      in case err of
           Some e \<Rightarrow>
             (Some (Error (''monitorDefaultRoutes, after '' @ elapsed env @ '': '' @ Error_msg e)),
              r2)
         | None \<Rightarrow>
             (None, r2\<lparr>logf := logf r2 @ [''monitorDefaultRoutes done after '' @ elapsed env]\<rparr>))"

subsection \<open>Set\<close>

primrec hasdefault :: "cidr list \<Rightarrow> bool" where
  "hasdefault [] = False"
| "hasdefault (r # rs) = (if Bits r = 0 then True else hasdefault rs)"

text \<open>
  The tail of \<open>Set\<close> (lines 127 to 137): the killswitch decision, from \<open>hasdefault\<close> and
  the flag. The value \<open>DisableFirewall\<close> returns is not used.
\<close>

definition killswitch :: "set_env \<Rightarrow> bool \<Rightarrow> winRouter \<Rightarrow> winRouter" where
  "killswitch env hasdef r =
     (if hasdef \<and> \<not> wgFirewallEnabled r then
        let r1 = r\<lparr>logf := logf r @ [''enabling default route killswitch''],
                   calls := calls r @ [EnableFirewall]\<rparr>;
            r2 = (case EnableFirewall_res env of
                    Some err \<Rightarrow>
                      r1\<lparr>logf := logf r1 @
                           [''enabling default routing firewall failed: '' @ Error_msg err]\<rparr>
                  | None \<Rightarrow> r1)
        in r2\<lparr>wgFirewallEnabled := True\<rparr>
      else if \<not> hasdef \<and> wgFirewallEnabled r then
        r\<lparr>logf := logf r @ [''disabling default route killswitch''],
          calls := calls r @ [DisableFirewall],
          wgFirewallEnabled := False\<rparr>
      else r)"

text \<open>The configuration \<open>Set\<close> works with: \<open>shutdownConfig\<close> in place of a nil pointer.\<close>

definition orShutdown :: "Config option \<Rightarrow> Config" where
  "orShutdown cfg0 = (case cfg0 of None \<Rightarrow> shutdownConfig | Some c \<Rightarrow> c)"

definition winRouter_Set ::
  "(cidr \<Rightarrow> string) \<Rightarrow> set_env \<Rightarrow> Config option \<Rightarrow> winRouter \<Rightarrow> error option \<times> winRouter" where
  "winRouter_Set str env cfg0 r =
     (let cfg = orShutdown cfg0;
          localAddrs = foldl (\<lambda>acc la. acc @ [str la]) [] (LocalAddrs cfg);
          r1 = r\<lparr>firewall := set_ft localAddrs (firewall r),
                 calls := calls r @ [FirewallSet localAddrs]\<rparr>;
          r2 = r1\<lparr>calls := calls r1 @ [ConfigureInterface cfg]\<rparr>
      in case configureInterface_res env of
           Some err \<Rightarrow> (Some err, r2\<lparr>logf := logf r2 @ [''ConfigureInterface: '' @ Error_msg err]\<rparr>)
         | None \<Rightarrow>
             let r3 = r2\<lparr>calls := calls r2 @ [DnsSet (DNS cfg)]\<rparr> in
             (case dns_Set_res env of
                Some err \<Rightarrow> (Some (Wrapped ''dns set: '' err), r3)
              | None \<Rightarrow> (None, killswitch env (hasdefault (Routes cfg)) r3)))"

subsection \<open>Close\<close>

definition winRouter_Close :: "close_env \<Rightarrow> winRouter \<Rightarrow> error option \<times> winRouter" where
  "winRouter_Close env r =
     (let r1 = r\<lparr>firewall := clear (firewall r), calls := calls r @ [FirewallSet [], DnsDown]\<rparr>
      in case dns_Down_res env of
           Some err \<Rightarrow> (Some (Wrapped ''dns down: '' err), r1)
         | None \<Rightarrow>
             (case routeChangeCallback r1 of
                Some cb \<Rightarrow> (None, r1\<lparr>calls := calls r1 @ [Unregister cb]\<rparr>)
              | None \<Rightarrow> (None, r1)))"

definition isToggle :: "call \<Rightarrow> bool" where
  "isToggle c = (c = EnableFirewall \<or> c = DisableFirewall)"

definition newRouter :: winRouter where
  "newRouter =
     \<lparr>firewall = newTweaker, wgFirewallEnabled = False, routeChangeCallback = None,
      logf = [], calls = []\<rparr>"

section \<open>Notions used in the statements and proofs\<close>

text \<open>
  The status change that \<open>RegisterWatcher\<close> documents: an error "changes state either to
  unhealthy or from unhealthy", and unknown to healthy is no change.
\<close>

fun status_transition :: "error option option \<Rightarrow> error option \<Rightarrow> bool" where
  "status_transition None err = (err \<noteq> None)"
| "status_transition (Some old) err = ((old = None) \<noteq> (err = None))"

text \<open>The list handed to the last \<open>set\<close> call of an execution (empty before the first).\<close>

definition last_requested :: "event list \<Rightarrow> string list" where
  "last_requested es =
     foldl (\<lambda>w e. case e of SetCall cidrs \<Rightarrow> cidrs | LoopStep i res \<Rightarrow> w) [] es"

text \<open>No goroutine is left, and the tweaker records \<open>w\<close> as applied.\<close>

definition converged :: "string list \<Rightarrow> tweaker \<Rightarrow> bool" where
  "converged w s = (loops s = [] \<and> \<not> running (ft s) \<and> known (ft s) \<and> lastVal (ft s) = w)"

text \<open>
  A successful add of the Tailscale-Process rule, and the number of adds of that rule
  issued after the first successful one.
\<close>

definition addProcOK :: "fwcall \<Rightarrow> bool" where
  "addProcOK c = (isAddProc c \<and> snd c = None)"

fun procAddsAfterSuccess :: "fwcall list \<Rightarrow> nat" where
  "procAddsAfterSuccess [] = 0"
| "procAddsAfterSuccess (c # cs) =
     (if addProcOK c then length (filter isAddProc cs) else procAddsAfterSuccess cs)"

text \<open>Invariants of the executions, and measures on program points, for the proofs.\<close>

definition single :: "tweaker \<Rightarrow> bool" where
  "single s = (length (loops s) = (if running (ft s) then 1 else 0))"

definition settled :: "tweaker \<Rightarrow> bool" where
  "settled s = (running (ft s) \<or> (known (ft s) \<and> lastVal (ft s) = want (ft s)))"

fun pc_val :: "pc \<Rightarrow> string list" where
  "pc_val PTop = []"
| "pc_val (PClear val needProcRule) = val"
| "pc_val (PProcDel val) = val"
| "pc_val (PExe val) = val"
| "pc_val (PProcAdd val) = val"
| "pc_val (PMark val) = val"
| "pc_val (PAdd val cidr rest) = val"
| "pc_val (PBackoff val err) = val"
| "pc_val (PCommit val err) = val"

fun pc_err :: "pc \<Rightarrow> error option" where
  "pc_err (PBackoff val err) = err"
| "pc_err (PCommit val err) = err"
| "pc_err p = None"

text \<open>Steps from a program point to the end of its iteration when every call succeeds.\<close>

fun dist :: "pc \<Rightarrow> nat" where
  "dist PTop = 0"
| "dist (PClear val needProcRule) = (if needProcRule then length val + 6 else length val + 2)"
| "dist (PProcDel val) = length val + 5"
| "dist (PExe val) = length val + 4"
| "dist (PProcAdd val) = length val + 3"
| "dist (PMark val) = length val + 2"
| "dist (PAdd val cidr rest) = length rest + 2"
| "dist (PBackoff val err) = 1"
| "dist (PCommit val err) = 0"

fun pending :: "pc \<Rightarrow> bool" where
  "pending (PClear val needProcRule) = needProcRule"
| "pending (PProcDel val) = True"
| "pending (PExe val) = True"
| "pending (PProcAdd val) = True"
| "pending p = False"

fun marking :: "pc \<Rightarrow> bool" where
  "marking (PMark val) = True"
| "marking p = False"

definition proc_inv :: "tweaker \<Rightarrow> bool" where
  "proc_inv s =
     (procAddsAfterSuccess (trace s) = 0 \<and>
      (if list_ex pending (loops s) then \<not> list_ex addProcOK (trace s) \<and> \<not> didProcRule (ft s)
       else if list_ex marking (loops s) then list_ex addProcOK (trace s)
       else didProcRule (ft s) = list_ex addProcOK (trace s)))"


text \<open>
  An add of a Tailscale-In rule; the program points at the head of the loop; and, for the
  program points before the range loop, a bound on the steps left until it.
\<close>

definition isAddIn :: "fwcall \<Rightarrow> bool" where
  "isAddIn c = (take 3 (fst c) = [''add'', ''rule'', ''name=Tailscale-In''])"

fun at_head :: "pc \<Rightarrow> bool" where
  "at_head PTop = True"
| "at_head (PCommit val err) = True"
| "at_head p = False"

fun pre_rank :: "pc \<Rightarrow> nat" where
  "pre_rank (PClear val needProcRule) = 5"
| "pre_rank (PProcDel val) = 4"
| "pre_rank (PExe val) = 3"
| "pre_rank (PProcAdd val) = 2"
| "pre_rank (PMark val) = 1"
| "pre_rank p = 0"

section \<open>Executions of the tweaker: invariants\<close>


lemma strsEqual_eq: "strsEqual a b = (a = b)"
proof (cases "length a = length b")
  case True
  have "strsEqual a b = (\<forall>i<length a. a ! i = b ! i)"
    using True by (auto simp: strsEqual_def list_all_iff)
  also have "\<dots> = (a = b)"
    using True list_eq_iff_nth_eq[of a b] by simp
  finally show ?thesis .
next
  case False
  then show ?thesis by (auto simp: strsEqual_def)
qed

lemma run_snoc: "run exe s (es @ [e]) = step exe e (run exe s es)"
  by (simp add: run_def)

lemma run_nil: "run exe s [] = s"
  by (simp add: run_def)

lemma run_append: "run exe s (es @ es') = run exe (run exe s es) es'"
  by (simp add: run_def)

lemma loop_head_exit:
  "loop_head f = (f', None) \<Longrightarrow> f' = f\<lparr>running := False\<rparr> \<and> known f \<and> lastVal f = want f"
  by (auto simp: loop_head_def Let_def strsEqual_eq split: if_splits)

lemma loop_head_go:
  "loop_head f = (f', Some p) \<Longrightarrow>
     f' = f \<and> \<not> (known f \<and> lastVal f = want f) \<and>
     p = afterTop (want f) (\<not> known f \<or> lastVal f \<noteq> [] \<or> want f = []) (\<not> didProcRule f)"
  by (auto simp: loop_head_def Let_def strsEqual_eq split: if_splits)

lemma das_exit:
  "doAsyncSet_step exe r p f = (f', None, out) \<Longrightarrow>
     \<not> running f' \<and> known f' \<and> lastVal f' = want f' \<and> out = []"
  by (cases p) (auto dest!: loop_head_exit split: if_splits prod.splits list.splits)

lemma das_go:
  "doAsyncSet_step exe r p f = (f', Some p', out) \<Longrightarrow> running f' = running f"
  by (cases p) (auto dest!: loop_head_go split: if_splits prod.splits list.splits)

lemma das_want:
  "doAsyncSet_step exe r p f = (f', p', out) \<Longrightarrow> want f' = want f"
  by (cases p; cases p') (auto dest!: loop_head_go loop_head_exit split: if_splits prod.splits list.splits)

lemma single_step: assumes "single s" shows "single (step exe e s)"
proof (cases e)
  case (SetCall c)
  then show ?thesis using assms by (auto simp: single_def set_ft_def Let_def)
next
  case (LoopStep i r)
  show ?thesis
  proof (cases "i < length (loops s)")
    case False
    then show ?thesis using assms LoopStep by simp
  next
    case True
    obtain f' p' out where d: "doAsyncSet_step exe r (loops s ! i) (ft s) = (f', p', out)"
      by (metis prod_cases3)
    from True assms have rn: "running (ft s)" "length (loops s) = 1"
      by (auto simp: single_def split: if_splits)
    show ?thesis
    proof (cases p')
      case None
      with d das_exit have "\<not> running f'" by blast
      then show ?thesis using d True LoopStep rn None by (simp add: single_def remove_nth_def)
    next
      case (Some q)
      with d das_go have "running f' = running (ft s)" by blast
      then show ?thesis using d True LoopStep rn Some by (simp add: single_def)
    qed
  qed
qed

lemma single_new: "single newTweaker"
  by (simp add: single_def newTweaker_def)

lemma single_run: "single s \<Longrightarrow> single (run exe s es)"
  by (induction es rule: rev_induct) (simp_all add: run_nil run_snoc single_step del: step.simps)

lemma settled_step: assumes "single s" "settled s" shows "settled (step exe e s)"
proof (cases e)
  case (SetCall c)
  then show ?thesis by (auto simp: settled_def set_ft_def Let_def)
next
  case (LoopStep i r)
  show ?thesis
  proof (cases "i < length (loops s)")
    case False
    then show ?thesis using assms LoopStep by simp
  next
    case True
    obtain f' p' out where d: "doAsyncSet_step exe r (loops s ! i) (ft s) = (f', p', out)"
      by (metis prod_cases3)
    from True assms have rn: "running (ft s)"
      by (auto simp: single_def split: if_splits)
    show ?thesis
    proof (cases p')
      case None
      with d das_exit have "known f' \<and> lastVal f' = want f'" by blast
      then show ?thesis using d True LoopStep None by (simp add: settled_def)
    next
      case (Some q)
      with d das_go have "running f' = running (ft s)" by blast
      then show ?thesis using d True LoopStep rn Some by (simp add: settled_def)
    qed
  qed
qed

lemma settled_run: "single s \<Longrightarrow> settled s \<Longrightarrow> settled (run exe s es)"
  by (induction es rule: rev_induct) (simp_all add: run_nil run_snoc single_run settled_step del: step.simps)

lemma want_loopstep: "want (ft (step exe (LoopStep i r) s)) = want (ft s)"
proof (cases "i < length (loops s)")
  case True
  obtain f' p' out where d: "doAsyncSet_step exe r (loops s ! i) (ft s) = (f', p', out)"
    by (metis prod_cases3)
  then show ?thesis using True das_want[OF d] by (cases p') simp_all
qed simp

lemma want_run: "list_all (\<lambda>e. \<not> isSetCall e) es \<Longrightarrow> want (ft (run exe s es)) = want (ft s)"
proof (induction es rule: rev_induct)
  case Nil
  then show ?case by (simp add: run_def)
next
  case (snoc e es)
  then show ?case by (cases e) (simp_all add: run_snoc want_loopstep del: step.simps)
qed

lemma after_set: "running (ft (set_ft c s)) \<and> want (ft (set_ft c s)) = c"
  by (simp add: set_ft_def Let_def)


lemma dist_afterProc: "dist (afterProc v) = length v + 1"
  by (simp add: afterProc_def split: list.splits)

lemma progress:
  assumes "p \<noteq> PTop" "dist p = Suc k"
  shows "\<exists>f' p' out. doAsyncSet_step exe None p f = (f', Some p', out) \<and> dist p' = k \<and>
           pc_val p' = pc_val p \<and> pc_err p' = pc_err p \<and> p' \<noteq> PTop \<and> want f' = want f"
  using assms
  by (cases p) (auto simp: afterClear_def afterProc_def split: list.splits if_splits)

lemma dist_0: "p \<noteq> PTop \<Longrightarrow> dist p = 0 \<Longrightarrow> p = PCommit (pc_val p) (pc_err p)"
  by (cases p) (auto split: if_splits)

lemma run_Cons: "run exe s (e # es) = run exe (step exe e s) es"
  by (simp add: run_def)

lemma reach_commit:
  "loops s = [p] \<Longrightarrow> p \<noteq> PTop \<Longrightarrow> dist p = k \<Longrightarrow>
     loops (run exe s (replicate k (LoopStep 0 None))) = [PCommit (pc_val p) (pc_err p)] \<and>
     want (ft (run exe s (replicate k (LoopStep 0 None)))) = want (ft s)"
proof (induction k arbitrary: s p)
  case 0
  then show ?case using dist_0[of p] by (simp add: run_nil)
next
  case (Suc k)
  from progress[OF Suc.prems(2,3), of exe "ft s"] obtain f' p' out where
    d: "doAsyncSet_step exe None p (ft s) = (f', Some p', out)" and
    p': "dist p' = k" "pc_val p' = pc_val p" "pc_err p' = pc_err p" "p' \<noteq> PTop" "want f' = want (ft s)"
    by blast
  let ?s1 = "step exe (LoopStep 0 None) s"
  have s1: "loops ?s1 = [p']" "want (ft ?s1) = want (ft s)"
    using d Suc.prems(1) p'(5) by simp_all
  from Suc.IH[OF s1(1) p'(4) p'(1)] show ?case
    using p' s1 by (simp add: run_Cons del: step.simps)
qed

lemma commit_step:
  assumes "loops s = [PCommit v e]"
  shows "(e = None \<and> v = want (ft s) \<and> converged (want (ft s)) (step exe (LoopStep 0 None) s)) \<or>
         (\<exists>p. loops (step exe (LoopStep 0 None) s) = [p] \<and> p \<noteq> PTop \<and> pc_val p = want (ft s) \<and>
              pc_err p = None \<and> want (ft (step exe (LoopStep 0 None) s)) = want (ft s))"
  using assms
  by (auto simp: loop_head_def strsEqual_eq Let_def converged_def remove_nth_def
      afterTop_def afterClear_def afterProc_def split: list.splits)

lemma top_step:
  assumes "loops s = [PTop]"
  shows "converged (want (ft s)) (step exe (LoopStep 0 None) s) \<or>
         (\<exists>p. loops (step exe (LoopStep 0 None) s) = [p] \<and> p \<noteq> PTop \<and> pc_val p = want (ft s) \<and>
              pc_err p = None \<and> want (ft (step exe (LoopStep 0 None) s)) = want (ft s))"
  using assms
  by (auto simp: loop_head_def strsEqual_eq Let_def converged_def remove_nth_def
      afterTop_def afterClear_def afterProc_def split: list.splits)

lemma run_replicate_add:
  "run exe s (replicate (a + b) e) = run exe (run exe s (replicate a e)) (replicate b e)"
  by (simp add: replicate_add run_append)

lemma run_replicate_Suc:
  "run exe s (replicate (Suc a) e) = run exe (step exe e s) (replicate a e)"
  by (simp add: run_Cons del: step.simps)

lemma run_replicate_Suc':
  "run exe s (replicate (Suc a) e) = step exe e (run exe s (replicate a e))"
proof -
  have "replicate (Suc a) e = replicate a e @ [e]"
    by (simp add: replicate_append_same)
  then show ?thesis by (simp only: run_snoc)
qed

lemma commit_clean:
  assumes "loops s = [PCommit (want (ft s)) None]"
  shows "converged (want (ft s)) (step exe (LoopStep 0 None) s)"
  using assms
  by (simp add: loop_head_def strsEqual_eq Let_def converged_def remove_nth_def)

lemma clean_converges:
  assumes "loops s = [p]" "p \<noteq> PTop" "pc_val p = want (ft s)" "pc_err p = None"
  shows "converged (want (ft s)) (run exe s (replicate (Suc (dist p)) (LoopStep 0 None)))"
proof -
  let ?s1 = "run exe s (replicate (dist p) (LoopStep 0 None))"
  from reach_commit[OF assms(1,2) refl, of exe]
  have s1: "loops ?s1 = [PCommit (want (ft s)) None]" "want (ft ?s1) = want (ft s)"
    using assms(3,4) by simp_all
  from s1 have "loops ?s1 = [PCommit (want (ft ?s1)) None]" by simp
  from commit_clean[OF this, of exe] s1(2)
  have "converged (want (ft s)) (step exe (LoopStep 0 None) ?s1)"
    by (simp del: step.simps)
  then show ?thesis by (simp only: run_replicate_Suc')
qed

lemma any_converges:
  assumes "loops s = [p]"
  shows "\<exists>n. converged (want (ft s)) (run exe s (replicate n (LoopStep 0 None)))"
proof -
  let ?ok = "LoopStep 0 None"
  have after: "\<exists>n. converged (want (ft s)) (run exe t (replicate n ?ok))"
    if t: "converged (want (ft s)) t \<or>
         (\<exists>q. loops t = [q] \<and> q \<noteq> PTop \<and> pc_val q = want (ft s) \<and> pc_err q = None \<and> want (ft t) = want (ft s))"
    for t
  proof -
    from t show ?thesis
    proof
      assume "converged (want (ft s)) t"
      then have "converged (want (ft s)) (run exe t (replicate 0 ?ok))" by (simp add: run_nil)
      then show ?thesis by blast
    next
      assume "\<exists>q. loops t = [q] \<and> q \<noteq> PTop \<and> pc_val q = want (ft s) \<and> pc_err q = None \<and> want (ft t) = want (ft s)"
      then obtain q where q: "loops t = [q]" "q \<noteq> PTop" "pc_val q = want (ft t)" "pc_err q = None" "want (ft t) = want (ft s)"
        by auto
      from clean_converges[OF q(1-4), of exe] q(5) show ?thesis by metis
    qed
  qed
  show ?thesis
  proof (cases "p = PTop")
    case True
    from top_step[of s exe] assms True
    have "converged (want (ft s)) (step exe ?ok s) \<or>
         (\<exists>q. loops (step exe ?ok s) = [q] \<and> q \<noteq> PTop \<and> pc_val q = want (ft s) \<and> pc_err q = None \<and> want (ft (step exe ?ok s)) = want (ft s))"
      by blast
    from after[OF this] obtain n where "converged (want (ft s)) (run exe (step exe ?ok s) (replicate n ?ok))" by blast
    then have "converged (want (ft s)) (run exe s (replicate (Suc n) ?ok))"
      by (simp only: run_replicate_Suc)
    then show ?thesis by blast
  next
    case False
    let ?s1 = "run exe s (replicate (dist p) ?ok)"
    from reach_commit[OF assms False refl, of exe]
    have s1: "loops ?s1 = [PCommit (pc_val p) (pc_err p)]" "want (ft ?s1) = want (ft s)"
      by simp_all
    from commit_step[OF s1(1), of exe] s1(2)
    have "converged (want (ft s)) (step exe ?ok ?s1) \<or>
         (\<exists>q. loops (step exe ?ok ?s1) = [q] \<and> q \<noteq> PTop \<and> pc_val q = want (ft s) \<and> pc_err q = None \<and> want (ft (step exe ?ok ?s1)) = want (ft s))"
      by (auto simp del: step.simps)
    from after[OF this] obtain n where "converged (want (ft s)) (run exe (step exe ?ok ?s1) (replicate n ?ok))" by blast
    then have "converged (want (ft s)) (run exe s (replicate (dist p + Suc n) ?ok))"
      by (simp only: run_replicate_add run_replicate_Suc)
    then show ?thesis by blast
  qed
qed

lemma want_last_requested_gen:
  "want (ft (run exe s es)) = foldl (\<lambda>w e. case e of SetCall cidrs \<Rightarrow> cidrs | LoopStep i res \<Rightarrow> w) (want (ft s)) es"
proof (induction es rule: rev_induct)
  case Nil
  then show ?case by (simp add: run_nil)
next
  case (snoc e es)
  then show ?case
    by (cases e) (simp_all add: run_snoc want_loopstep after_set del: step.simps, simp add: after_set)
qed

lemma want_last_requested: "want (ft (run exe newTweaker es)) = last_requested es"
  by (simp add: want_last_requested_gen last_requested_def) (simp add: newTweaker_def)

lemma settled_after_set:
  "list_ex isSetCall es \<Longrightarrow> settled (run exe newTweaker es)"
proof (induction es rule: rev_induct)
  case Nil
  then show ?case by simp
next
  case (snoc e es)
  show ?case
  proof (cases e)
    case (SetCall c)
    then show ?thesis using after_set by (simp add: run_snoc settled_def)
  next
    case (LoopStep i r)
    with snoc have "settled (run exe newTweaker es)" by simp
    then show ?thesis
      using settled_step[OF single_run[OF single_new]] by (simp add: run_snoc del: step.simps)
  qed
qed

lemma convergence:
  assumes "list_ex isSetCall es"
  shows "\<exists>n. converged (last_requested es) (run exe (run exe newTweaker es) (replicate n (LoopStep 0 None)))"
proof -
  let ?s = "run exe newTweaker es"
  have sg: "single ?s" by (rule single_run[OF single_new])
  have st: "settled ?s" by (rule settled_after_set[OF assms])
  show ?thesis
  proof (cases "running (ft ?s)")
    case True
    with sg obtain p where "loops ?s = [p]"
      by (auto simp: single_def length_Suc_conv)
    from any_converges[OF this, of exe] show ?thesis
      by (simp add: want_last_requested)
  next
    case False
    with sg st have "converged (last_requested es) (run exe ?s (replicate 0 (LoopStep 0 None)))"
      by (simp add: converged_def settled_def single_def run_nil want_last_requested)
    then show ?thesis by blast
  qed
qed

lemma exits_iff:
  "(fst (snd (doAsyncSet_step exe r p f)) = None) =
     (case p of PTop \<Rightarrow> known f \<and> want f = lastVal f
      | PCommit val err \<Rightarrow> err = None \<and> want f = val
      | _ \<Rightarrow> False)"
  by (cases p) (auto simp: loop_head_def Let_def strsEqual_eq split: list.splits)


lemma isAddProc_simps [simp]:
  "isAddProc (delIn_args, r) = False"
  "isAddProc (delProc_args, r) = False"
  "isAddProc (addIn_args c, r) = False"
  "isAddProc (addProc_args exe, r) = True"
  by (simp_all add: isAddProc_def delIn_args_def delProc_args_def addIn_args_def addProc_args_def)

lemma procAddsAfterSuccess_snoc:
  "procAddsAfterSuccess (tr @ [x]) =
     (if list_ex addProcOK tr then procAddsAfterSuccess tr + (if isAddProc x then 1 else 0) else 0)"
  by (induction tr) auto

lemma pending_after [simp]:
  "pending (afterProc v) = False" "marking (afterProc v) = False"
  "pending (afterClear v np) = np" "marking (afterClear v np) = False"
  "pending (afterTop v nc np) = np" "marking (afterTop v nc np) = False"
  by (auto simp: afterProc_def afterClear_def afterTop_def split: list.splits)

lemma proc_inv_das:
  assumes "doAsyncSet_step exe r p f = (f', p', out)"
    and "if pending p then \<not> list_ex addProcOK tr \<and> \<not> didProcRule f
         else if marking p then list_ex addProcOK tr
         else didProcRule f = list_ex addProcOK tr"
    and "procAddsAfterSuccess tr = 0"
  shows "procAddsAfterSuccess (tr @ out) = 0 \<and>
         (case p' of
            None \<Rightarrow> didProcRule f' = list_ex addProcOK (tr @ out)
          | Some q \<Rightarrow>
              (if pending q then \<not> list_ex addProcOK (tr @ out) \<and> \<not> didProcRule f'
               else if marking q then list_ex addProcOK (tr @ out)
               else didProcRule f' = list_ex addProcOK (tr @ out)))"
  using assms
  by (cases p)
     (auto simp: loop_head_def Let_def procAddsAfterSuccess_snoc addProcOK_def
           split: if_splits list.splits)

lemma proc_inv_step: assumes "single s" "proc_inv s" shows "proc_inv (step exe e s)"
proof (cases e)
  case (SetCall c)
  then show ?thesis using assms by (auto simp: proc_inv_def set_ft_def Let_def single_def)
next
  case (LoopStep i r)
  show ?thesis
  proof (cases "i < length (loops s)")
    case False
    then show ?thesis using assms LoopStep by simp
  next
    case True
    with assms(1) obtain p where p: "loops s = [p]" "i = 0"
      by (auto simp: single_def length_Suc_conv split: if_splits)
    obtain f' p' out where d: "doAsyncSet_step exe r p (ft s) = (f', p', out)"
      by (metis prod_cases3)
    from assms(2) p have pre:
      "if pending p then \<not> list_ex addProcOK (trace s) \<and> \<not> didProcRule (ft s)
       else if marking p then list_ex addProcOK (trace s)
       else didProcRule (ft s) = list_ex addProcOK (trace s)"
      "procAddsAfterSuccess (trace s) = 0"
      by (simp_all add: proc_inv_def)
    from proc_inv_das[OF d pre] show ?thesis
      using d p LoopStep by (cases p') (auto simp: proc_inv_def remove_nth_def split: if_splits)
  qed
qed

lemma proc_inv_new: "proc_inv newTweaker"
  by (simp add: proc_inv_def newTweaker_def)

lemma proc_inv_run: "proc_inv (run exe newTweaker es)"
proof (induction es rule: rev_induct)
  case Nil
  then show ?case by (simp add: run_nil proc_inv_new)
next
  case (snoc e es)
  then show ?case
    using proc_inv_step[OF single_run[OF single_new]] by (simp add: run_snoc del: step.simps)
qed

lemma didProcRule_succ:
  assumes "single s" "proc_inv s" "didProcRule (ft s)" shows "list_ex addProcOK (trace s)"
proof (cases "loops s")
  case Nil
  then show ?thesis using assms by (simp add: proc_inv_def)
next
  case (Cons p ps)
  with assms(1) have "loops s = [p]" by (auto simp: single_def split: if_splits)
  then show ?thesis using assms(2,3) by (auto simp: proc_inv_def split: if_splits)
qed

lemma didProcRule_das:
  "doAsyncSet_step exe r p f = (f', p', out) \<Longrightarrow> didProcRule f \<Longrightarrow> didProcRule f'"
  by (cases p) (auto simp: loop_head_def Let_def split: if_splits list.splits)

lemma didProcRule_step: assumes "didProcRule (ft s)" shows "didProcRule (ft (step exe e s))"
proof (cases e)
  case (SetCall c)
  then show ?thesis using assms by (simp add: set_ft_def Let_def)
next
  case (LoopStep i r)
  show ?thesis
  proof (cases "i < length (loops s)")
    case False
    then show ?thesis using assms LoopStep by simp
  next
    case True
    obtain f' p' out where d: "doAsyncSet_step exe r (loops s ! i) (ft s) = (f', p', out)"
      by (metis prod_cases3)
    from didProcRule_das[OF d assms] show ?thesis
      using d True LoopStep by (cases p') simp_all
  qed
qed

lemma skip_proc:
  "didProcRule f \<Longrightarrow> snd (loop_head f) = Some p \<Longrightarrow> p = PClear (want f) False \<or> p = afterProc (want f)"
  by (auto simp: loop_head_def Let_def afterTop_def afterClear_def split: if_splits)

lemma count_le_one:
  "procAddsAfterSuccess tr = 0 \<Longrightarrow> length (filter addProcOK tr) \<le> 1"
proof (induction tr)
  case (Cons c cs)
  show ?case
  proof (cases "addProcOK c")
    case True
    with Cons.prems have "filter isAddProc cs = []" by simp
    then have "filter addProcOK cs = []"
      by (auto simp: filter_empty_conv addProcOK_def)
    then show ?thesis using True by simp
  next
    case False
    then show ?thesis using Cons by simp
  qed
qed simp

lemma adds_ok:
  "i < length (loops s) \<Longrightarrow> loops s ! i = PAdd val c cs \<Longrightarrow>
     run exe s (replicate (Suc (length cs)) (LoopStep i None)) =
       s\<lparr>loops := (loops s)[i := PBackoff val None],
         trace := trace s @ map (\<lambda>c. (addIn_args c, None)) (c # cs)\<rparr>"
proof (induction cs arbitrary: c s)
  case Nil
  then show ?case by (simp add: run_def)
next
  case (Cons c' cs)
  let ?s1 = "step exe (LoopStep i None) s"
  have s1: "?s1 = s\<lparr>loops := (loops s)[i := PAdd val c' cs], trace := trace s @ [(addIn_args c, None)]\<rparr>"
    using Cons.prems by simp
  have "i < length (loops ?s1)" "loops ?s1 ! i = PAdd val c' cs"
    using Cons.prems by (simp_all add: s1 del: step.simps)
  from Cons.IH[OF this] show ?case
    by (simp add: run_Cons s1 del: step.simps)
qed

lemma adds_fail:
  "i < length (loops s) \<Longrightarrow> loops s ! i = PAdd val c cs \<Longrightarrow> k \<le> length cs \<Longrightarrow>
     run exe s (replicate k (LoopStep i None) @ [LoopStep i (Some e)]) =
       s\<lparr>loops := (loops s)[i := PBackoff val (Some e)],
         trace := trace s @ map (\<lambda>c. (addIn_args c, None)) (take k (c # cs)) @
                  [(addIn_args ((c # cs) ! k), Some e)]\<rparr>"
proof (induction k arbitrary: c cs s)
  case 0
  then show ?case by (simp add: run_def)
next
  case (Suc k)
  then obtain c' cs' where cs: "cs = c' # cs'" by (cases cs) auto
  let ?s1 = "step exe (LoopStep i None) s"
  have s1: "?s1 = s\<lparr>loops := (loops s)[i := PAdd val c' cs'], trace := trace s @ [(addIn_args c, None)]\<rparr>"
    using Suc.prems cs by simp
  have "i < length (loops ?s1)" "loops ?s1 ! i = PAdd val c' cs'" "k \<le> length cs'"
    using Suc.prems cs by (simp_all add: s1 del: step.simps)
  from Suc.IH[OF this] show ?case
    by (simp add: run_Cons s1 cs del: step.simps)
qed

lemma add_loop:
  assumes "i < length (loops s)" "loops s ! i = afterProc val"
  shows "run exe s (replicate (length val) (LoopStep i None)) =
           s\<lparr>loops := (loops s)[i := PBackoff val None],
             trace := trace s @ map (\<lambda>c. (addIn_args c, None)) val\<rparr>"
    and "k < length val \<Longrightarrow>
         run exe s (replicate k (LoopStep i None) @ [LoopStep i (Some e)]) =
           s\<lparr>loops := (loops s)[i := PBackoff val (Some e)],
             trace := trace s @ map (\<lambda>c. (addIn_args c, None)) (take k val) @
                      [(addIn_args (val ! k), Some e)]\<rparr>"
proof -
  show "run exe s (replicate (length val) (LoopStep i None)) =
           s\<lparr>loops := (loops s)[i := PBackoff val None],
             trace := trace s @ map (\<lambda>c. (addIn_args c, None)) val\<rparr>"
  proof (cases val)
    case Nil
    with assms have "(loops s)[i := PBackoff val None] = loops s"
      by (metis afterProc_def list.simps(4) list_update_id)
    then show ?thesis using Nil by (simp add: run_nil)
  next
    case (Cons c cs)
    then show ?thesis using adds_ok[OF assms(1), of val c cs exe] assms(2) by (simp add: afterProc_def)
  qed
  show "run exe s (replicate k (LoopStep i None) @ [LoopStep i (Some e)]) =
           s\<lparr>loops := (loops s)[i := PBackoff val (Some e)],
             trace := trace s @ map (\<lambda>c. (addIn_args c, None)) (take k val) @
                      [(addIn_args (val ! k), Some e)]\<rparr>" if "k < length val"
  proof (cases val)
    case Nil
    then show ?thesis using that by simp
  next
    case (Cons c cs)
    then show ?thesis using adds_fail[OF assms(1), of val c cs k exe e] assms(2) that by (simp add: afterProc_def)
  qed
qed


lemma isAddIn_simps [simp]:
  "isAddIn (delIn_args, r) = False"
  "isAddIn (delProc_args, r) = False"
  "isAddIn (addIn_args c, r) = True"
  "isAddIn (addProc_args exe, r) = False"
  by (simp_all add: isAddIn_def delIn_args_def delProc_args_def addIn_args_def addProc_args_def)

lemma pre_rank_afterProc [simp]: "pre_rank (afterProc v) = 0"
  by (simp add: afterProc_def split: list.splits)

lemma pc_val_afterProc [simp]: "pc_val (afterProc v) = v"
  by (simp add: afterProc_def split: list.splits)

lemma pre_step:
  assumes "pre_rank p = Suc k"
  shows "\<exists>f' p' out. doAsyncSet_step exe r p f = (f', Some p', out) \<and> want f' = want f \<and>
           filter isAddIn out = [] \<and>
           (p' = afterProc (pc_val p) \<or> (0 < pre_rank p' \<and> pre_rank p' \<le> k \<and> pc_val p' = pc_val p))"
  using assms by (cases p) (auto simp: afterClear_def)

lemma pre_phase:
  "i < length (loops s) \<Longrightarrow>
   loops s ! i = afterProc v \<or> (0 < pre_rank (loops s ! i) \<and> pre_rank (loops s ! i) \<le> k \<and> pc_val (loops s ! i) = v) \<Longrightarrow>
   k \<le> length rs \<Longrightarrow>
   \<exists>n pre. n \<le> k \<and>
     i < length (loops (run exe s (map (LoopStep i) (take n rs)))) \<and>
     loops (run exe s (map (LoopStep i) (take n rs))) ! i = afterProc v \<and>
     want (ft (run exe s (map (LoopStep i) (take n rs)))) = want (ft s) \<and>
     trace (run exe s (map (LoopStep i) (take n rs))) = trace s @ pre \<and>
     filter isAddIn pre = []"
proof (induction k arbitrary: s rs)
  case 0
  then have "loops s ! i = afterProc v" by auto
  with 0 have "i < length (loops (run exe s (map (LoopStep i) (take 0 rs)))) \<and>
     loops (run exe s (map (LoopStep i) (take 0 rs))) ! i = afterProc v \<and>
     want (ft (run exe s (map (LoopStep i) (take 0 rs)))) = want (ft s) \<and>
     trace (run exe s (map (LoopStep i) (take 0 rs))) = trace s @ [] \<and>
     filter isAddIn [] = []"
    by (simp add: run_nil)
  then show ?case by blast
next
  case (Suc k)
  show ?case
  proof (cases "loops s ! i = afterProc v")
    case True
    with Suc.prems have "i < length (loops (run exe s (map (LoopStep i) (take 0 rs)))) \<and>
     loops (run exe s (map (LoopStep i) (take 0 rs))) ! i = afterProc v \<and>
     want (ft (run exe s (map (LoopStep i) (take 0 rs)))) = want (ft s) \<and>
     trace (run exe s (map (LoopStep i) (take 0 rs))) = trace s @ [] \<and>
     filter isAddIn [] = []"
      by (simp add: run_nil)
    then show ?thesis by blast
  next
    case False
    with Suc.prems have pr: "0 < pre_rank (loops s ! i)" "pre_rank (loops s ! i) \<le> Suc k"
      "pc_val (loops s ! i) = v"
      by auto
    then obtain j where j: "pre_rank (loops s ! i) = Suc j" "j \<le> k"
      by (cases "pre_rank (loops s ! i)") auto
    from Suc.prems(3) obtain r rs' where rs: "rs = r # rs'" "k \<le> length rs'"
      by (cases rs) auto
    from pre_step[OF j(1), of exe r "ft s"] pr(3) obtain f' p' out where
      d: "doAsyncSet_step exe r (loops s ! i) (ft s) = (f', Some p', out)" and
      w: "want f' = want (ft s)" and o: "filter isAddIn out = []" and
      p': "p' = afterProc v \<or> (0 < pre_rank p' \<and> pre_rank p' \<le> j \<and> pc_val p' = v)"
      by auto
    let ?s1 = "step exe (LoopStep i r) s"
    have s1: "?s1 = s\<lparr>ft := f', loops := (loops s)[i := p'], trace := trace s @ out\<rparr>"
      using d Suc.prems(1) by simp
    have a: "i < length (loops ?s1)" using Suc.prems(1) by (simp add: s1 del: step.simps)
    have b: "loops ?s1 ! i = afterProc v \<or>
          (0 < pre_rank (loops ?s1 ! i) \<and> pre_rank (loops ?s1 ! i) \<le> k \<and> pc_val (loops ?s1 ! i) = v)"
      using p' j(2) Suc.prems(1) by (auto simp add: s1 simp del: step.simps)
    from Suc.IH[OF a b rs(2)] obtain n pre where
      n: "n \<le> k"
        "i < length (loops (run exe ?s1 (map (LoopStep i) (take n rs'))))"
        "loops (run exe ?s1 (map (LoopStep i) (take n rs'))) ! i = afterProc v"
        "want (ft (run exe ?s1 (map (LoopStep i) (take n rs')))) = want (ft ?s1)"
        "trace (run exe ?s1 (map (LoopStep i) (take n rs'))) = trace ?s1 @ pre"
        "filter isAddIn pre = []"
      by blast
    have e: "run exe s (map (LoopStep i) (take (Suc n) rs)) = run exe ?s1 (map (LoopStep i) (take n rs'))"
      by (simp add: rs run_Cons del: step.simps)
    have "Suc n \<le> Suc k \<and>
     i < length (loops (run exe s (map (LoopStep i) (take (Suc n) rs)))) \<and>
     loops (run exe s (map (LoopStep i) (take (Suc n) rs))) ! i = afterProc v \<and>
     want (ft (run exe s (map (LoopStep i) (take (Suc n) rs)))) = want (ft s) \<and>
     trace (run exe s (map (LoopStep i) (take (Suc n) rs))) = trace s @ (out @ pre) \<and>
     filter isAddIn (out @ pre) = []"
      unfolding e using n o w by (simp add: s1 del: step.simps)
    then show ?thesis by blast
  qed
qed

lemma head_step:
  assumes "i < length (loops s)" "at_head (loops s ! i)"
    and "fst (snd (doAsyncSet_step exe r0 (loops s ! i) (ft s))) \<noteq> None"
  shows "i < length (loops (step exe (LoopStep i r0) s)) \<and>
         want (ft (step exe (LoopStep i r0) s)) = want (ft s) \<and>
         trace (step exe (LoopStep i r0) s) = trace s \<and>
         (loops (step exe (LoopStep i r0) s) ! i = afterProc (want (ft s)) \<or>
          (0 < pre_rank (loops (step exe (LoopStep i r0) s) ! i) \<and>
           pre_rank (loops (step exe (LoopStep i r0) s) ! i) \<le> 5 \<and>
           pc_val (loops (step exe (LoopStep i r0) s) ! i) = want (ft s)))"
  using assms
  by (cases "loops s ! i")
     (auto simp: loop_head_def Let_def afterTop_def afterClear_def split: if_splits)

lemma nonhead_indep:
  "\<not> at_head p \<Longrightarrow> snd (doAsyncSet_step exe r p f) = snd (doAsyncSet_step exe r p f')"
  by (cases p) (auto split: list.splits)

lemma set_keeps_goroutine:
  "running (ft s) \<Longrightarrow> loops (set_ft cidrs s) = loops s \<and> trace (set_ft cidrs s) = trace s"
  by (simp add: set_ft_def Let_def)



section \<open>The status registry: when watchers run\<close>

text \<open>
  C9. \<open>set\<close> stores the error under the key, so that the status a later call compares
  with is the one set last. It starts the registered callbacks, one per watcher and each
  with the key and the new error, exactly when the key's status changes between nil and
  non-nil, a first set of an unknown key to a non-nil error included; it starts none on
  the first set of an unknown key to nil, nor when the status stays nil or stays non-nil.
  Of two sets of the same key in a row, the second starts the callbacks exactly when
  one error is nil and the other is not. When a non-nil error replaces a non-nil error,
  the stored error is the new one.
\<close>

theorem set_health_callbacks:
  "snd (set_health key err h) =
     (if status_transition (m h key) err then (\<lambda>w. (w, key, err)) ` watchers h else {}) \<and>
   m (fst (set_health key err h)) = (m h)(key \<mapsto> err) \<and>
   watchers (fst (set_health key err h)) = watchers h \<and>
   snd (set_health key err2 (fst (set_health key err h))) =
     (if (err = None) \<noteq> (err2 = None) then (\<lambda>w. (w, key, err2)) ` watchers h else {}) \<and>
   (m h key = Some (Some e) \<longrightarrow>
      m (fst (set_health key (Some e') h)) key = Some (Some e') \<and>
      snd (set_health key (Some e') h) = {})"
proof -
  have st: "m (fst (set_health key err h)) = (m h)(key \<mapsto> err)" for err h
    by (cases "m h key"; cases err) (auto simp: set_health_def Let_def fun_upd_idem)
  have w: "watchers (fst (set_health key err h)) = watchers h" for err h
    by (cases "m h key"; cases err) (auto simp: set_health_def Let_def)
  have cb: "snd (set_health key err h) =
     (if status_transition (m h key) err then (\<lambda>w. (w, key, err)) ` watchers h else {})" for err h
    by (cases "m h key"; cases err) (auto simp: set_health_def Let_def)
  have two: "snd (set_health key err2 (fst (set_health key err h))) =
     (if (err = None) \<noteq> (err2 = None) then (\<lambda>w. (w, key, err2)) ` watchers h else {})"
    by (cases err; cases err2) (simp_all add: cb st w)
  have last: "m h key = Some (Some e) \<longrightarrow>
      m (fst (set_health key (Some e') h)) key = Some (Some e') \<and>
      snd (set_health key (Some e') h) = {}"
    by (simp add: cb st)
  show ?thesis using st cb w two last by blast
qed

theorem set_health_callbacks_witness:
  "m \<lparr>m = [''router'' \<mapsto> Some (Error ''a'')], watchers = {1, 2}\<rparr> ''router'' = Some (Some (Error ''a'')) \<and>
   m (fst (set_health ''router'' (Some (Error ''b''))
        \<lparr>m = [''router'' \<mapsto> Some (Error ''a'')], watchers = {1, 2}\<rparr>)) ''router'' =
     Some (Some (Error ''b'')) \<and>
   snd (set_health ''router'' (Some (Error ''b''))
        \<lparr>m = [''router'' \<mapsto> Some (Error ''a'')], watchers = {1, 2}\<rparr>) = {} \<and>
   snd (set_health ''router'' None
        \<lparr>m = [''router'' \<mapsto> Some (Error ''a'')], watchers = {1, 2}\<rparr>) =
     {(1, ''router'', None), (2, ''router'', None)} \<and>
   snd (set_health ''router'' (Some (Error ''b''))
        (fst (set_health ''router'' None
          \<lparr>m = [''router'' \<mapsto> Some (Error ''a'')], watchers = {1, 2}\<rparr>))) =
     {(1, ''router'', Some (Error ''b'')), (2, ''router'', Some (Error ''b''))}"
  using set_health_callbacks
    [of "''router''" None "\<lparr>m = [''router'' \<mapsto> Some (Error ''a'')], watchers = {1, 2}\<rparr>"
        "Some (Error ''b'')" "Error ''a''" "Error ''b''"]
  by simp

section \<open>The firewall tweaker: the claims\<close>

lemmas eval_defs =
  run_def set_ft_def loop_head_def strsEqual_def afterTop_def afterClear_def afterProc_def
  newTweaker_def remove_nth_def Let_def

text \<open>
  C2. Take any execution from a new tweaker in which \<open>set A\<close> is followed, after any
  events \<open>es2\<close> (so also before the goroutine has applied \<open>A\<close>), by \<open>set B\<close>, and in which
  \<open>B\<close> is the last list requested. Whenever no goroutine is running at the end, the
  tweaker is in a known state with \<open>lastVal\<close> equal to \<open>B\<close>: the goroutine cannot have
  returned with \<open>A\<close>, or any list other than \<open>B\<close>, as the applied state.
\<close>

theorem coalescing:
  assumes "list_all (\<lambda>e. \<not> isSetCall e) es3"
    and "\<not> running (ft (run exe newTweaker (es1 @ [SetCall A] @ es2 @ [SetCall B] @ es3)))"
  shows "known (ft (run exe newTweaker (es1 @ [SetCall A] @ es2 @ [SetCall B] @ es3))) \<and>
         lastVal (ft (run exe newTweaker (es1 @ [SetCall A] @ es2 @ [SetCall B] @ es3))) = B \<and>
         loops (run exe newTweaker (es1 @ [SetCall A] @ es2 @ [SetCall B] @ es3)) = []"
proof -
  let ?s0 = "run exe newTweaker (es1 @ [SetCall A] @ es2)"
  let ?s1 = "step exe (SetCall B) ?s0"
  let ?s = "run exe newTweaker (es1 @ [SetCall A] @ es2 @ [SetCall B] @ es3)"
  have eq: "?s = run exe ?s1 es3"
    by (simp add: run_def)
  have "single ?s1"
    by (rule single_step[OF single_run[OF single_new]])
  moreover have "settled ?s1" "want (ft ?s1) = B"
    using after_set by (simp_all add: settled_def)
  ultimately have s1: "single ?s1" "settled ?s1" "want (ft ?s1) = B" .
  have "single ?s" "settled ?s" "want (ft ?s) = B"
    unfolding eq using s1 assms(1) by (simp_all add: single_run settled_run want_run)
  then show ?thesis using assms(2) by (auto simp: settled_def single_def)
qed

theorem coalescing_witness:
  "list_all (\<lambda>e. \<not> isSetCall e) (replicate 9 (LoopStep 0 None)) \<and>
   \<not> running (ft (run ''ts.exe'' newTweaker
       ([] @ [SetCall [''10.0.0.1/32'']] @ [] @ [SetCall [''10.0.0.2/32'']] @
        replicate 9 (LoopStep 0 None)))) \<and>
   lastVal (ft (run ''ts.exe'' newTweaker
       ([] @ [SetCall [''10.0.0.1/32'']] @ [] @ [SetCall [''10.0.0.2/32'']] @
        replicate 9 (LoopStep 0 None)))) = [''10.0.0.2/32'']"
proof -
  have a: "list_all (\<lambda>e. \<not> isSetCall e) (replicate 9 (LoopStep 0 None))"
    by (simp add: eval_nat_numeral)
  have b: "\<not> running (ft (run ''ts.exe'' newTweaker
       ([] @ [SetCall [''10.0.0.1/32'']] @ [] @ [SetCall [''10.0.0.2/32'']] @
        replicate 9 (LoopStep 0 None))))"
    by (simp add: eval_defs eval_nat_numeral)
  show ?thesis using a b coalescing[OF a b] by simp
qed

text \<open>
  C3. Sequence equality: \<open>strsEqual\<close> holds exactly for equal lists. A step of the
  goroutine returns exactly when it is the test at the head of an iteration (on entry, or
  right after \<open>lastVal\<close> and \<open>known\<close> were stored, when \<open>known\<close> is \<open>err = nil\<close> and
  \<open>lastVal\<close> is \<open>val\<close>) and \<open>known\<close> holds and \<open>want\<close> equals \<open>lastVal\<close>; it then leaves
  \<open>running\<close> false. And after any execution with at least one \<open>set\<close> call, if no further
  \<open>set\<close> call is made and every call of the goroutine succeeds, the goroutine returns
  after finitely many steps with \<open>lastVal\<close> equal to the last list requested.
\<close>

theorem loop_exit_and_convergence:
  "(strsEqual a b = (a = b)) \<and>
   ((fst (snd (doAsyncSet_step exe r p f)) = None) =
      (case p of
         PTop \<Rightarrow> known f \<and> strsEqual (lastVal f) (want f)
       | PCommit val err \<Rightarrow> err = None \<and> strsEqual val (want f)
       | _ \<Rightarrow> False)) \<and>
   (fst (snd (doAsyncSet_step exe r p f)) = None \<longrightarrow>
      \<not> running (fst (doAsyncSet_step exe r p f))) \<and>
   (list_ex isSetCall es \<longrightarrow>
      (\<exists>n. converged (last_requested es)
             (run exe (run exe newTweaker es) (replicate n (LoopStep 0 None)))))"
proof -
  have "(fst (snd (doAsyncSet_step exe r p f)) = None) =
      (case p of
         PTop \<Rightarrow> known f \<and> strsEqual (lastVal f) (want f)
       | PCommit val err \<Rightarrow> err = None \<and> strsEqual val (want f)
       | _ \<Rightarrow> False)"
    using exits_iff[of exe r p f] by (cases p) (auto simp: strsEqual_eq)
  moreover have "fst (snd (doAsyncSet_step exe r p f)) = None \<longrightarrow>
      \<not> running (fst (doAsyncSet_step exe r p f))"
    using das_exit[of exe r p f] by (metis prod.collapse)
  ultimately show ?thesis
    using strsEqual_eq convergence by blast
qed

theorem loop_exit_and_convergence_witness:
  "list_ex isSetCall [SetCall [''10.0.0.1/32'']] \<and>
   (\<exists>n. converged (last_requested [SetCall [''10.0.0.1/32'']])
          (run ''ts.exe'' (run ''ts.exe'' newTweaker [SetCall [''10.0.0.1/32'']])
             (replicate n (LoopStep 0 None)))) \<and>
   fst (snd (doAsyncSet_step ''ts.exe'' None (PCommit [''10.0.0.1/32''] None)
     \<lparr>didProcRule = True, running = True, known = False, want = [''10.0.0.1/32''],
      lastVal = []\<rparr>)) = None \<and>
   \<not> running (fst (doAsyncSet_step ''ts.exe'' None (PCommit [''10.0.0.1/32''] None)
     \<lparr>didProcRule = True, running = True, known = False, want = [''10.0.0.1/32''],
      lastVal = []\<rparr>))"
proof -
  have h: "list_ex isSetCall [SetCall [''10.0.0.1/32'']]" by simp
  have g: "fst (snd (doAsyncSet_step ''ts.exe'' None (PCommit [''10.0.0.1/32''] None)
     \<lparr>didProcRule = True, running = True, known = False, want = [''10.0.0.1/32''],
      lastVal = []\<rparr>)) = None"
    by (simp add: eval_defs)
  show ?thesis
    using h g loop_exit_and_convergence
      [of "[]" "[]" "''ts.exe''" None "PCommit [''10.0.0.1/32''] None"
          "\<lparr>didProcRule = True, running = True, known = False, want = [''10.0.0.1/32''],
            lastVal = []\<rparr>" "[SetCall [''10.0.0.1/32'']]"]
    by blast
qed

text \<open>
  C4. In every execution from a new tweaker, whatever the interleaving of \<open>set\<close> calls and
  goroutine steps, at most one \<open>doAsyncSet\<close> goroutine is live, and one is live exactly
  when \<open>running\<close> is true. \<open>set\<close> starts a goroutine only when \<open>running\<close> was false and
  leaves \<open>running\<close> true; a step of the goroutine clears \<open>running\<close> only when it returns.
\<close>

theorem at_most_one_loop:
  "length (loops (run exe newTweaker es)) \<le> 1 \<and>
   (length (loops (run exe newTweaker es)) = 1) = running (ft (run exe newTweaker es)) \<and>
   running (ft (set_ft cidrs s)) \<and>
   length (loops (set_ft cidrs s)) =
     (if running (ft s) then length (loops s) else Suc (length (loops s))) \<and>
   running (fst (doAsyncSet_step exe r p f)) =
     (if fst (snd (doAsyncSet_step exe r p f)) = None then False else running f)"
proof -
  have "running (fst (doAsyncSet_step exe r p f)) =
     (if fst (snd (doAsyncSet_step exe r p f)) = None then False else running f)"
  proof (cases "fst (snd (doAsyncSet_step exe r p f))")
    case None
    then show ?thesis using das_exit[of exe r p f] by (metis prod.collapse)
  next
    case (Some q)
    then show ?thesis using das_go[of exe r p f] by (metis option.distinct(1) prod.collapse)
  qed
  moreover have "running (ft (set_ft cidrs s)) \<and>
     length (loops (set_ft cidrs s)) =
       (if running (ft s) then length (loops s) else Suc (length (loops s)))"
    by (simp add: set_ft_def Let_def)
  ultimately show ?thesis
    using single_run[OF single_new, of exe es] by (auto simp: single_def)
qed

theorem at_most_one_loop_witness:
  "length (loops (run ''ts.exe'' newTweaker
      [SetCall [''10.0.0.1/32''], SetCall [], LoopStep 0 None, SetCall [''10.0.0.2/32'']])) = 1"
  using at_most_one_loop
    [of "''ts.exe''"
        "[SetCall [''10.0.0.1/32''], SetCall [], LoopStep 0 None, SetCall [''10.0.0.2/32'']]"]
  by (simp add: eval_defs)

text \<open>
  C6. In every execution from a new tweaker, no add of the Tailscale-Process rule is
  issued after the first successful one, so at most one such add succeeds.
  \<open>didProcRule\<close> is true only if such an add has succeeded, no step sets it back to
  false, and when it is true the test at the head of an iteration continues, if it does
  not return, at the clearing of the Tailscale-In rules with \<open>needProcRule\<close> false or
  directly at the adds of the Tailscale-In rules.
\<close>

theorem proc_rule_once:
  "procAddsAfterSuccess (trace (run exe newTweaker es)) = 0 \<and>
   length (filter addProcOK (trace (run exe newTweaker es))) \<le> 1 \<and>
   (didProcRule (ft (run exe newTweaker es)) \<longrightarrow>
      list_ex addProcOK (trace (run exe newTweaker es))) \<and>
   (didProcRule (ft s) \<longrightarrow> didProcRule (ft (step exe e s))) \<and>
   (didProcRule f \<and> snd (loop_head f) = Some p \<longrightarrow>
      p = PClear (want f) False \<or> p = afterProc (want f))"
proof -
  have inv: "proc_inv (run exe newTweaker es)"
    by (rule proc_inv_run)
  then have z: "procAddsAfterSuccess (trace (run exe newTweaker es)) = 0"
    by (simp add: proc_inv_def)
  from count_le_one[OF z] z
    didProcRule_succ[OF single_run[OF single_new] inv]
    didProcRule_step[of s exe e] skip_proc[of f p]
  show ?thesis by blast
qed

theorem proc_rule_once_witness:
  "didProcRule (ft (run ''ts.exe'' newTweaker (SetCall [] # replicate 6 (LoopStep 0 None)))) \<and>
   list_ex addProcOK (trace (run ''ts.exe'' newTweaker (SetCall [] # replicate 6 (LoopStep 0 None)))) \<and>
   didProcRule (ft (step ''ts.exe'' (SetCall [''10.0.0.1/32''])
     (run ''ts.exe'' newTweaker (SetCall [] # replicate 6 (LoopStep 0 None))))) \<and>
   snd (loop_head \<lparr>didProcRule = True, running = True, known = False,
                   want = [''10.0.0.1/32''], lastVal = []\<rparr>) =
     Some (PClear [''10.0.0.1/32''] False)"
proof -
  have d: "didProcRule (ft (run ''ts.exe'' newTweaker (SetCall [] # replicate 6 (LoopStep 0 None))))"
    by (simp add: eval_defs eval_nat_numeral)
  have t: "snd (loop_head \<lparr>didProcRule = True, running = True, known = False,
                   want = [''10.0.0.1/32''], lastVal = []\<rparr>) =
     Some (PClear [''10.0.0.1/32''] False)"
    by (simp add: eval_defs)
  show ?thesis
    using d t proc_rule_once
      [of "''ts.exe''" "SetCall [] # replicate 6 (LoopStep 0 None)"
          "run ''ts.exe'' newTweaker (SetCall [] # replicate 6 (LoopStep 0 None))"
          "SetCall [''10.0.0.1/32'']"
          "\<lparr>didProcRule = True, running = True, known = False,
            want = [''10.0.0.1/32''], lastVal = []\<rparr>"
          "PClear [''10.0.0.1/32''] False"]
    by blast
qed

text \<open>
  C7. Take any state, so also any state of an execution, in which goroutine \<open>i\<close> is at
  the head of an iteration and the test there does not return; \<open>val\<close> is then the
  snapshot of \<open>want\<close>. Whatever the results \<open>rs\<close> of the calls that clear the rules and
  install the process rule, after at most five steps, in which no Tailscale-In add is
  issued, the goroutine stands at the range loop over \<open>val\<close>. From there, if every add
  succeeds, its next \<open>length val\<close> steps issue the Tailscale-In adds for the CIDRs of
  \<open>val\<close> in order and reach the backoff with a nil error; if the adds for the first \<open>k\<close>
  CIDRs succeed and the next one fails with \<open>e\<close>, exactly those \<open>k + 1\<close> adds are issued,
  in order, none for a later CIDR, and the backoff is reached with \<open>e\<close>. The backoff
  step hands its error on unchanged to the step that stores \<open>lastVal = val\<close> and
  \<open>known = (err = nil)\<close>. Between the head and that step the goroutine reads no shared
  field, and a \<open>set\<close> call made meanwhile changes neither the goroutine nor the trace.
\<close>

theorem add_rules_in_order:
  assumes "i < length (loops s)" and "at_head (loops s ! i)"
    and "fst (snd (doAsyncSet_step exe r0 (loops s ! i) (ft s))) \<noteq> None"
    and "length rs = 5"
  shows "(\<exists>n pre. n \<le> 5 \<and> filter isAddIn pre = [] \<and>
           (let val = want (ft s);
                s1 = run exe s (LoopStep i r0 # map (LoopStep i) (take n rs))
            in i < length (loops s1) \<and> loops s1 ! i = afterProc val \<and>
               trace s1 = trace s @ pre \<and>
               run exe s1 (replicate (length val) (LoopStep i None)) =
                 s1\<lparr>loops := (loops s1)[i := PBackoff val None],
                    trace := trace s1 @ map (\<lambda>c. (addIn_args c, None)) val\<rparr> \<and>
               (\<forall>k e. k < length val \<longrightarrow>
                  run exe s1 (replicate k (LoopStep i None) @ [LoopStep i (Some e)]) =
                    s1\<lparr>loops := (loops s1)[i := PBackoff val (Some e)],
                       trace := trace s1 @ map (\<lambda>c. (addIn_args c, None)) (take k val) @
                                [(addIn_args (val ! k), Some e)]\<rparr>))) \<and>
         doAsyncSet_step exe r (PBackoff v err) f = (f, Some (PCommit v err), []) \<and>
         known (fst (doAsyncSet_step exe r (PCommit v err) f)) = (err = None) \<and>
         lastVal (fst (doAsyncSet_step exe r (PCommit v err) f)) = v \<and>
         (\<not> at_head p \<longrightarrow>
            snd (doAsyncSet_step exe r p f) = snd (doAsyncSet_step exe r p f')) \<and>
         (running (ft t) \<longrightarrow>
            loops (set_ft cidrs t) = loops t \<and> trace (set_ft cidrs t) = trace t)"
proof -
  let ?s0 = "step exe (LoopStep i r0) s"
  let ?val = "want (ft s)"
  from head_step[OF assms(1-3)] have
    h: "i < length (loops ?s0)" "want (ft ?s0) = ?val" "trace ?s0 = trace s"
       "loops ?s0 ! i = afterProc ?val \<or>
          (0 < pre_rank (loops ?s0 ! i) \<and> pre_rank (loops ?s0 ! i) \<le> 5 \<and>
           pc_val (loops ?s0 ! i) = ?val)"
    by blast+
  from assms(4) have "5 \<le> length rs" by simp
  from pre_phase[OF h(1) h(4) this, of exe] obtain n pre where
    n: "n \<le> 5"
       "i < length (loops (run exe ?s0 (map (LoopStep i) (take n rs))))"
       "loops (run exe ?s0 (map (LoopStep i) (take n rs))) ! i = afterProc ?val"
       "trace (run exe ?s0 (map (LoopStep i) (take n rs))) = trace ?s0 @ pre"
       "filter isAddIn pre = []"
    by blast
  let ?s1 = "run exe s (LoopStep i r0 # map (LoopStep i) (take n rs))"
  have e: "?s1 = run exe ?s0 (map (LoopStep i) (take n rs))"
    by (simp only: run_Cons)
  have s1: "i < length (loops ?s1)" "loops ?s1 ! i = afterProc ?val" "trace ?s1 = trace s @ pre"
    unfolding e using n h(3) by simp_all
  have loop: "run exe ?s1 (replicate (length ?val) (LoopStep i None)) =
                 ?s1\<lparr>loops := (loops ?s1)[i := PBackoff ?val None],
                    trace := trace ?s1 @ map (\<lambda>c. (addIn_args c, None)) ?val\<rparr> \<and>
               (\<forall>k e. k < length ?val \<longrightarrow>
                  run exe ?s1 (replicate k (LoopStep i None) @ [LoopStep i (Some e)]) =
                    ?s1\<lparr>loops := (loops ?s1)[i := PBackoff ?val (Some e)],
                       trace := trace ?s1 @ map (\<lambda>c. (addIn_args c, None)) (take k ?val) @
                                [(addIn_args (?val ! k), Some e)]\<rparr>)"
    using add_loop(1)[OF s1(1,2), where exe=exe] add_loop(2)[OF s1(1,2), where exe=exe]
    by blast
  have first: "\<exists>n pre. n \<le> 5 \<and> filter isAddIn pre = [] \<and>
           (let val = want (ft s);
                s1 = run exe s (LoopStep i r0 # map (LoopStep i) (take n rs))
            in i < length (loops s1) \<and> loops s1 ! i = afterProc val \<and>
               trace s1 = trace s @ pre \<and>
               run exe s1 (replicate (length val) (LoopStep i None)) =
                 s1\<lparr>loops := (loops s1)[i := PBackoff val None],
                    trace := trace s1 @ map (\<lambda>c. (addIn_args c, None)) val\<rparr> \<and>
               (\<forall>k e. k < length val \<longrightarrow>
                  run exe s1 (replicate k (LoopStep i None) @ [LoopStep i (Some e)]) =
                    s1\<lparr>loops := (loops s1)[i := PBackoff val (Some e)],
                       trace := trace s1 @ map (\<lambda>c. (addIn_args c, None)) (take k val) @
                                [(addIn_args (val ! k), Some e)]\<rparr>))"
    unfolding Let_def using n(1,5) s1 loop by blast
  have commit: "known (fst (doAsyncSet_step exe r (PCommit v err) f)) = (err = None) \<and>
        lastVal (fst (doAsyncSet_step exe r (PCommit v err) f)) = v"
    by (simp add: loop_head_def Let_def split: prod.splits)
  have boff: "doAsyncSet_step exe r (PBackoff v err) f = (f, Some (PCommit v err), [])"
    by simp
  show ?thesis
    using first commit boff nonhead_indep[of p exe r f f'] set_keeps_goroutine[of t cidrs]
    by blast
qed

theorem add_rules_in_order_witness:
  "0 < length (loops (run ''ts.exe'' newTweaker [SetCall [''a'', ''b'']])) \<and>
   at_head (loops (run ''ts.exe'' newTweaker [SetCall [''a'', ''b'']]) ! 0) \<and>
   fst (snd (doAsyncSet_step ''ts.exe'' None
     (loops (run ''ts.exe'' newTweaker [SetCall [''a'', ''b'']]) ! 0)
     (ft (run ''ts.exe'' newTweaker [SetCall [''a'', ''b'']])))) \<noteq> None \<and>
   length [None, None, None, None, None :: error option] = 5 \<and>
   (\<exists>n pre. n \<le> 5 \<and> filter isAddIn pre = [] \<and>
      trace (run ''ts.exe'' (run ''ts.exe'' newTweaker [SetCall [''a'', ''b'']])
              (LoopStep 0 None # map (LoopStep 0) (take n [None, None, None, None, None]))) =
        trace (run ''ts.exe'' newTweaker [SetCall [''a'', ''b'']]) @ pre \<and>
      run ''ts.exe''
        (run ''ts.exe'' (run ''ts.exe'' newTweaker [SetCall [''a'', ''b'']])
              (LoopStep 0 None # map (LoopStep 0) (take n [None, None, None, None, None])))
        (replicate 1 (LoopStep 0 None) @ [LoopStep 0 (Some (Error ''x''))]) =
      (run ''ts.exe'' (run ''ts.exe'' newTweaker [SetCall [''a'', ''b'']])
              (LoopStep 0 None # map (LoopStep 0) (take n [None, None, None, None, None])))
        \<lparr>loops := (loops (run ''ts.exe'' (run ''ts.exe'' newTweaker [SetCall [''a'', ''b'']])
              (LoopStep 0 None # map (LoopStep 0) (take n [None, None, None, None, None]))))
              [0 := PBackoff [''a'', ''b''] (Some (Error ''x''))],
         trace := trace (run ''ts.exe'' (run ''ts.exe'' newTweaker [SetCall [''a'', ''b'']])
              (LoopStep 0 None # map (LoopStep 0) (take n [None, None, None, None, None]))) @
            map (\<lambda>c. (addIn_args c, None)) (take 1 [''a'', ''b'']) @
            [(addIn_args ([''a'', ''b''] ! 1), Some (Error ''x''))]\<rparr>)"
proof -
  let ?s = "run ''ts.exe'' newTweaker [SetCall [''a'', ''b'']]"
  have a: "0 < length (loops ?s)" by (simp add: eval_defs)
  have b: "at_head (loops ?s ! 0)" by (simp add: eval_defs)
  have c: "fst (snd (doAsyncSet_step ''ts.exe'' None (loops ?s ! 0) (ft ?s))) \<noteq> None"
    by (simp add: eval_defs)
  have d: "length [None, None, None, None, None :: error option] = 5" by simp
  have w: "want (ft ?s) = [''a'', ''b'']" by (simp add: eval_defs)
  have l: "(1::nat) < length [''a'', ''b'']" by simp
  from add_rules_in_order[OF a b c d, THEN conjunct1]
  obtain n pre where n: "n \<le> 5" "filter isAddIn pre = []"
    "trace (run ''ts.exe'' ?s (LoopStep 0 None # map (LoopStep 0) (take n [None, None, None, None, None]))) = trace ?s @ pre"
    "\<forall>k e. k < length [''a'', ''b''] \<longrightarrow>
       run ''ts.exe'' (run ''ts.exe'' ?s (LoopStep 0 None # map (LoopStep 0) (take n [None, None, None, None, None])))
         (replicate k (LoopStep 0 None) @ [LoopStep 0 (Some e)]) =
       (run ''ts.exe'' ?s (LoopStep 0 None # map (LoopStep 0) (take n [None, None, None, None, None])))
         \<lparr>loops := (loops (run ''ts.exe'' ?s (LoopStep 0 None # map (LoopStep 0) (take n [None, None, None, None, None]))))
              [0 := PBackoff [''a'', ''b''] (Some e)],
          trace := trace (run ''ts.exe'' ?s (LoopStep 0 None # map (LoopStep 0) (take n [None, None, None, None, None]))) @
            map (\<lambda>c. (addIn_args c, None)) (take k [''a'', ''b'']) @
            [(addIn_args ([''a'', ''b''] ! k), Some e)]\<rparr>"
    unfolding Let_def w by blast
  from n(4) l have "run ''ts.exe'' (run ''ts.exe'' ?s (LoopStep 0 None # map (LoopStep 0) (take n [None, None, None, None, None])))
         (replicate 1 (LoopStep 0 None) @ [LoopStep 0 (Some (Error ''x''))]) =
       (run ''ts.exe'' ?s (LoopStep 0 None # map (LoopStep 0) (take n [None, None, None, None, None])))
         \<lparr>loops := (loops (run ''ts.exe'' ?s (LoopStep 0 None # map (LoopStep 0) (take n [None, None, None, None, None]))))
              [0 := PBackoff [''a'', ''b''] (Some (Error ''x''))],
          trace := trace (run ''ts.exe'' ?s (LoopStep 0 None # map (LoopStep 0) (take n [None, None, None, None, None]))) @
            map (\<lambda>c. (addIn_args c, None)) (take 1 [''a'', ''b'']) @
            [(addIn_args ([''a'', ''b''] ! 1), Some (Error ''x''))]\<rparr>"
    by blast
  with n(1-3) a b c d show ?thesis by blast
qed

section \<open>The router: Set and Up\<close>

lemma localAddrs_loop: "foldl (\<lambda>acc la. acc @ [str la]) acc xs = acc @ map str xs"
  by (induction xs arbitrary: acc) simp_all

lemma killswitch_calls:
  "calls (killswitch env hasdef r) =
     calls r @ (if hasdef \<and> \<not> wgFirewallEnabled r then [EnableFirewall]
                else if \<not> hasdef \<and> wgFirewallEnabled r then [DisableFirewall] else [])"
  by (simp add: killswitch_def Let_def split: option.splits)

lemma killswitch_flag: "wgFirewallEnabled (killswitch env hasdef r) = hasdef"
  by (auto simp: killswitch_def Let_def split: option.splits)


lemma killswitch_logf:
  "logf (killswitch env hasdef r) =
     logf r @
       (if hasdef \<and> \<not> wgFirewallEnabled r then
          ''enabling default route killswitch'' #
          (case EnableFirewall_res env of
             Some err \<Rightarrow> [''enabling default routing firewall failed: '' @ Error_msg err]
           | None \<Rightarrow> [])
        else if \<not> hasdef \<and> wgFirewallEnabled r then [''disabling default route killswitch'']
        else [])"
  by (simp add: killswitch_def Let_def split: option.splits)

text \<open>\<open>Set\<close> by the outcome of its two fallible steps.\<close>

lemma Set_cases:
  "winRouter_Set str env cfg0 r =
     (let cfg = orShutdown cfg0;
          localAddrs = map str (LocalAddrs cfg);
          r2 = r\<lparr>firewall := set_ft localAddrs (firewall r),
                 calls := calls r @ [FirewallSet localAddrs, ConfigureInterface cfg]\<rparr>
      in case configureInterface_res env of
           Some err \<Rightarrow> (Some err, r2\<lparr>logf := logf r @ [''ConfigureInterface: '' @ Error_msg err]\<rparr>)
         | None \<Rightarrow>
             (case dns_Set_res env of
                Some err \<Rightarrow>
                  (Some (Wrapped ''dns set: '' err), r2\<lparr>calls := calls r2 @ [DnsSet (DNS cfg)]\<rparr>)
              | None \<Rightarrow>
                  (None, killswitch env (hasdefault (Routes cfg))
                           (r2\<lparr>calls := calls r2 @ [DnsSet (DNS cfg)]\<rparr>))))"
  by (simp add: winRouter_Set_def Let_def localAddrs_loop split: option.splits)

lemma Set_flag:
  "wgFirewallEnabled (snd (winRouter_Set str env cfg0 r)) =
     (if fst (winRouter_Set str env cfg0 r) = None then hasdefault (Routes (orShutdown cfg0))
      else wgFirewallEnabled r)"
  by (auto simp: Set_cases Let_def killswitch_flag split: option.splits)

lemma Set_toggles:
  "filter isToggle (calls (snd (winRouter_Set str env cfg0 r))) =
     filter isToggle (calls r) @
       (if fst (winRouter_Set str env cfg0 r) = None \<and>
           hasdefault (Routes (orShutdown cfg0)) \<noteq> wgFirewallEnabled r
        then [if wgFirewallEnabled r then DisableFirewall else EnableFirewall] else [])"
  by (auto simp: Set_cases Let_def killswitch_calls isToggle_def split: option.splits)

lemma Set_ok:
  "configureInterface_res env = None \<Longrightarrow> dns_Set_res env = None \<Longrightarrow>
     fst (winRouter_Set str env cfg0 r) = None"
  by (simp add: Set_cases Let_def)

lemma Set_ok_logf:
  "configureInterface_res env = None \<Longrightarrow> dns_Set_res env = None \<Longrightarrow>
     logf (snd (winRouter_Set str env cfg0 r)) =
       logf (killswitch env (hasdefault (Routes (orShutdown cfg0))) r)"
  by (simp add: Set_cases Let_def killswitch_logf)

lemmas router_eval_defs =
  winRouter_Set_def winRouter_Up_def killswitch_def orShutdown_def shutdownConfig_def
  newRouter_def newTweaker_def set_ft_def clear_def isToggle_def Let_def

text \<open>
  C1, as the code has it. When \<open>Set\<close> reaches the killswitch decision and \<open>EnableFirewall\<close>
  returns an error, the error is logged and not returned, and \<open>wgFirewallEnabled\<close> is set
  to true all the same. When \<open>DisableFirewall\<close> is called, whatever it returns is neither
  logged nor returned, and the flag is set to false. So a later \<open>Set\<close> with the same
  default-route presence issues no enable or disable call: the transition is not
  attempted again.
\<close>

theorem killswitch_failure_not_retried:
  assumes "configureInterface_res env = None" and "dns_Set_res env = None"
  shows "(hasdefault (Routes (orShutdown cfg0)) \<and> \<not> wgFirewallEnabled r \<and>
          EnableFirewall_res env = Some e \<longrightarrow>
            fst (winRouter_Set str env cfg0 r) = None \<and>
            wgFirewallEnabled (snd (winRouter_Set str env cfg0 r)) \<and>
            logf (snd (winRouter_Set str env cfg0 r)) =
              logf r @ [''enabling default route killswitch'',
                        ''enabling default routing firewall failed: '' @ Error_msg e] \<and>
            filter isToggle (calls (snd (winRouter_Set str env cfg0 r))) =
              filter isToggle (calls r) @ [EnableFirewall]) \<and>
         (\<not> hasdefault (Routes (orShutdown cfg0)) \<and> wgFirewallEnabled r \<longrightarrow>
            fst (winRouter_Set str env cfg0 r) = None \<and>
            \<not> wgFirewallEnabled (snd (winRouter_Set str env cfg0 r)) \<and>
            logf (snd (winRouter_Set str env cfg0 r)) =
              logf r @ [''disabling default route killswitch''] \<and>
            filter isToggle (calls (snd (winRouter_Set str env cfg0 r))) =
              filter isToggle (calls r) @ [DisableFirewall]) \<and>
         (hasdefault (Routes (orShutdown cfg0')) = hasdefault (Routes (orShutdown cfg0)) \<longrightarrow>
            filter isToggle
              (calls (snd (winRouter_Set str env' cfg0' (snd (winRouter_Set str env cfg0 r))))) =
            filter isToggle (calls (snd (winRouter_Set str env cfg0 r))))"
proof -
  note ok = Set_ok[OF assms, of str cfg0 r]
  have fl: "wgFirewallEnabled (snd (winRouter_Set str env cfg0 r)) =
        hasdefault (Routes (orShutdown cfg0))"
    using ok by (simp add: Set_flag)
  have a: "hasdefault (Routes (orShutdown cfg0)) \<and> \<not> wgFirewallEnabled r \<and>
          EnableFirewall_res env = Some e \<longrightarrow>
            logf (snd (winRouter_Set str env cfg0 r)) =
              logf r @ [''enabling default route killswitch'',
                        ''enabling default routing firewall failed: '' @ Error_msg e] \<and>
            filter isToggle (calls (snd (winRouter_Set str env cfg0 r))) =
              filter isToggle (calls r) @ [EnableFirewall]"
    using ok by (simp add: Set_ok_logf[OF assms] killswitch_logf Set_toggles)
  have b: "\<not> hasdefault (Routes (orShutdown cfg0)) \<and> wgFirewallEnabled r \<longrightarrow>
            logf (snd (winRouter_Set str env cfg0 r)) =
              logf r @ [''disabling default route killswitch''] \<and>
            filter isToggle (calls (snd (winRouter_Set str env cfg0 r))) =
              filter isToggle (calls r) @ [DisableFirewall]"
    using ok by (simp add: Set_ok_logf[OF assms] killswitch_logf Set_toggles)
  have c: "hasdefault (Routes (orShutdown cfg0')) = hasdefault (Routes (orShutdown cfg0)) \<longrightarrow>
            filter isToggle
              (calls (snd (winRouter_Set str env' cfg0' (snd (winRouter_Set str env cfg0 r))))) =
            filter isToggle (calls (snd (winRouter_Set str env cfg0 r)))"
    using fl by (simp add: Set_toggles[of str env' cfg0'])
  show ?thesis using ok fl a b c by simp
qed

theorem killswitch_failure_not_retried_witness:
  "wgFirewallEnabled (snd (winRouter_Set IP
      \<lparr>configureInterface_res = None, dns_Set_res = None,
       EnableFirewall_res = Some (Error ''access denied''), DisableFirewall_res = None\<rparr>
      (Some \<lparr>LocalAddrs = [], Routes = [\<lparr>IP = ''0.0.0.0'', Bits = 0\<rparr>],
             DNS = \<lparr>Nameservers = [], Domains = []\<rparr>\<rparr>) newRouter)) \<and>
   logf (snd (winRouter_Set IP
      \<lparr>configureInterface_res = None, dns_Set_res = None,
       EnableFirewall_res = Some (Error ''access denied''), DisableFirewall_res = None\<rparr>
      (Some \<lparr>LocalAddrs = [], Routes = [\<lparr>IP = ''0.0.0.0'', Bits = 0\<rparr>],
             DNS = \<lparr>Nameservers = [], Domains = []\<rparr>\<rparr>) newRouter)) =
     [''enabling default route killswitch'',
      ''enabling default routing firewall failed: access denied'']"
proof -
  have a: "configureInterface_res
      \<lparr>configureInterface_res = None, dns_Set_res = None,
       EnableFirewall_res = Some (Error ''access denied''), DisableFirewall_res = None\<rparr> = None"
    by simp
  have b: "dns_Set_res
      \<lparr>configureInterface_res = None, dns_Set_res = None,
       EnableFirewall_res = Some (Error ''access denied''), DisableFirewall_res = None\<rparr> = None"
    by simp
  show ?thesis
    using killswitch_failure_not_retried[OF a b,
        of "Some \<lparr>LocalAddrs = [], Routes = [\<lparr>IP = ''0.0.0.0'', Bits = 0\<rparr>],
                  DNS = \<lparr>Nameservers = [], Domains = []\<rparr>\<rparr>" newRouter "Error ''access denied''"
           IP None]
    by (simp add: orShutdown_def newRouter_def)
qed

text \<open>
  The claim C1 as stated fails: on a new router (flag false), a \<open>Set\<close> with a default route
  whose \<open>EnableFirewall\<close> call returns an error leaves the flag true, not unchanged, and
  the same \<open>Set\<close> repeated issues no second \<open>EnableFirewall\<close>.
\<close>

theorem killswitch_failure_counterexample:
  "filter isToggle (calls (snd (winRouter_Set IP
      \<lparr>configureInterface_res = None, dns_Set_res = None,
       EnableFirewall_res = Some (Error ''access denied''), DisableFirewall_res = None\<rparr>
      (Some \<lparr>LocalAddrs = [], Routes = [\<lparr>IP = ''0.0.0.0'', Bits = 0\<rparr>],
             DNS = \<lparr>Nameservers = [], Domains = []\<rparr>\<rparr>) newRouter))) = [EnableFirewall] \<and>
   wgFirewallEnabled (snd (winRouter_Set IP
      \<lparr>configureInterface_res = None, dns_Set_res = None,
       EnableFirewall_res = Some (Error ''access denied''), DisableFirewall_res = None\<rparr>
      (Some \<lparr>LocalAddrs = [], Routes = [\<lparr>IP = ''0.0.0.0'', Bits = 0\<rparr>],
             DNS = \<lparr>Nameservers = [], Domains = []\<rparr>\<rparr>) newRouter)) \<noteq>
     wgFirewallEnabled newRouter \<and>
   filter isToggle (calls (snd (winRouter_Set IP
      \<lparr>configureInterface_res = None, dns_Set_res = None,
       EnableFirewall_res = None, DisableFirewall_res = None\<rparr>
      (Some \<lparr>LocalAddrs = [], Routes = [\<lparr>IP = ''0.0.0.0'', Bits = 0\<rparr>],
             DNS = \<lparr>Nameservers = [], Domains = []\<rparr>\<rparr>)
      (snd (winRouter_Set IP
        \<lparr>configureInterface_res = None, dns_Set_res = None,
         EnableFirewall_res = Some (Error ''access denied''), DisableFirewall_res = None\<rparr>
        (Some \<lparr>LocalAddrs = [], Routes = [\<lparr>IP = ''0.0.0.0'', Bits = 0\<rparr>],
               DNS = \<lparr>Nameservers = [], Domains = []\<rparr>\<rparr>) newRouter))))) = [EnableFirewall]"
  by (simp add: router_eval_defs)

text \<open>
  C5, as the code has it. Of two consecutive \<open>Set\<close> calls whose configurations agree on
  the presence of a default route, and of which the first returned nil (so that it
  reached the killswitch decision), the second issues no \<open>EnableFirewall\<close> and no
  \<open>DisableFirewall\<close> call and leaves \<open>wgFirewallEnabled\<close> as it is. In any \<open>Set\<close> call the
  flag changes only when the default-route presence differs from the flag.
\<close>

theorem killswitch_idempotent:
  assumes "fst (winRouter_Set str env1 cfg1 r) = None"
    and "hasdefault (Routes (orShutdown cfg2)) = hasdefault (Routes (orShutdown cfg1))"
  shows "filter isToggle
           (calls (snd (winRouter_Set str env2 cfg2 (snd (winRouter_Set str env1 cfg1 r))))) =
         filter isToggle (calls (snd (winRouter_Set str env1 cfg1 r))) \<and>
         wgFirewallEnabled (snd (winRouter_Set str env2 cfg2 (snd (winRouter_Set str env1 cfg1 r)))) =
         wgFirewallEnabled (snd (winRouter_Set str env1 cfg1 r)) \<and>
         (wgFirewallEnabled (snd (winRouter_Set str env cfg r0)) \<noteq> wgFirewallEnabled r0 \<longrightarrow>
            hasdefault (Routes (orShutdown cfg)) \<noteq> wgFirewallEnabled r0 \<and>
            wgFirewallEnabled (snd (winRouter_Set str env cfg r0)) =
              hasdefault (Routes (orShutdown cfg)))"
proof -
  have fl: "wgFirewallEnabled (snd (winRouter_Set str env1 cfg1 r)) =
        hasdefault (Routes (orShutdown cfg2))"
    using assms by (simp add: Set_flag)
  have "filter isToggle
           (calls (snd (winRouter_Set str env2 cfg2 (snd (winRouter_Set str env1 cfg1 r))))) =
         filter isToggle (calls (snd (winRouter_Set str env1 cfg1 r)))"
    using fl by (simp add: Set_toggles[of str env2 cfg2])
  moreover have "wgFirewallEnabled
           (snd (winRouter_Set str env2 cfg2 (snd (winRouter_Set str env1 cfg1 r)))) =
         wgFirewallEnabled (snd (winRouter_Set str env1 cfg1 r))"
    using fl by (simp add: Set_flag[of str env2 cfg2])
  moreover have "wgFirewallEnabled (snd (winRouter_Set str env cfg r0)) \<noteq> wgFirewallEnabled r0 \<longrightarrow>
            hasdefault (Routes (orShutdown cfg)) \<noteq> wgFirewallEnabled r0 \<and>
            wgFirewallEnabled (snd (winRouter_Set str env cfg r0)) =
              hasdefault (Routes (orShutdown cfg))"
    by (simp add: Set_flag[of str env cfg r0])
  ultimately show ?thesis by blast
qed

theorem killswitch_idempotent_witness:
  "fst (winRouter_Set IP
      \<lparr>configureInterface_res = None, dns_Set_res = None,
       EnableFirewall_res = None, DisableFirewall_res = None\<rparr>
      (Some \<lparr>LocalAddrs = [], Routes = [\<lparr>IP = ''0.0.0.0'', Bits = 0\<rparr>],
             DNS = \<lparr>Nameservers = [], Domains = []\<rparr>\<rparr>) newRouter) = None \<and>
   filter isToggle (calls (snd (winRouter_Set IP
      \<lparr>configureInterface_res = None, dns_Set_res = None,
       EnableFirewall_res = None, DisableFirewall_res = None\<rparr>
      (Some \<lparr>LocalAddrs = [], Routes = [\<lparr>IP = ''10.0.0.0'', Bits = 8\<rparr>, \<lparr>IP = ''::'', Bits = 0\<rparr>],
             DNS = \<lparr>Nameservers = [], Domains = []\<rparr>\<rparr>)
      (snd (winRouter_Set IP
        \<lparr>configureInterface_res = None, dns_Set_res = None,
         EnableFirewall_res = None, DisableFirewall_res = None\<rparr>
        (Some \<lparr>LocalAddrs = [], Routes = [\<lparr>IP = ''0.0.0.0'', Bits = 0\<rparr>],
               DNS = \<lparr>Nameservers = [], Domains = []\<rparr>\<rparr>) newRouter))))) = [EnableFirewall]"
proof -
  have a: "fst (winRouter_Set IP
      \<lparr>configureInterface_res = None, dns_Set_res = None,
       EnableFirewall_res = None, DisableFirewall_res = None\<rparr>
      (Some \<lparr>LocalAddrs = [], Routes = [\<lparr>IP = ''0.0.0.0'', Bits = 0\<rparr>],
             DNS = \<lparr>Nameservers = [], Domains = []\<rparr>\<rparr>) newRouter) = None"
    by (simp add: router_eval_defs)
  have b: "hasdefault (Routes (orShutdown
        (Some \<lparr>LocalAddrs = [], Routes = [\<lparr>IP = ''10.0.0.0'', Bits = 8\<rparr>, \<lparr>IP = ''::'', Bits = 0\<rparr>],
               DNS = \<lparr>Nameservers = [], Domains = []\<rparr>\<rparr>))) =
     hasdefault (Routes (orShutdown
        (Some \<lparr>LocalAddrs = [], Routes = [\<lparr>IP = ''0.0.0.0'', Bits = 0\<rparr>],
               DNS = \<lparr>Nameservers = [], Domains = []\<rparr>\<rparr>)))"
    by (simp add: orShutdown_def)
  have c: "filter isToggle (calls (snd (winRouter_Set IP
      \<lparr>configureInterface_res = None, dns_Set_res = None,
       EnableFirewall_res = None, DisableFirewall_res = None\<rparr>
      (Some \<lparr>LocalAddrs = [], Routes = [\<lparr>IP = ''0.0.0.0'', Bits = 0\<rparr>],
             DNS = \<lparr>Nameservers = [], Domains = []\<rparr>\<rparr>) newRouter))) = [EnableFirewall]"
    by (simp add: router_eval_defs)
  show ?thesis
    using a c killswitch_idempotent[OF a b,
        of "\<lparr>configureInterface_res = None, dns_Set_res = None,
             EnableFirewall_res = None, DisableFirewall_res = None\<rparr>"]
    by simp
qed

text \<open>
  The claim C5 as stated fails for a first call that returned early: on a new router, a
  \<open>Set\<close> with a default route whose interface configuration fails issues no killswitch
  call and leaves the flag false, and the next \<open>Set\<close>, with the same configuration,
  issues \<open>EnableFirewall\<close>.
\<close>

theorem killswitch_idempotent_counterexample:
  "filter isToggle (calls (snd (winRouter_Set IP
      \<lparr>configureInterface_res = Some (Error ''no interface''), dns_Set_res = None,
       EnableFirewall_res = None, DisableFirewall_res = None\<rparr>
      (Some \<lparr>LocalAddrs = [], Routes = [\<lparr>IP = ''0.0.0.0'', Bits = 0\<rparr>],
             DNS = \<lparr>Nameservers = [], Domains = []\<rparr>\<rparr>) newRouter))) = [] \<and>
   filter isToggle (calls (snd (winRouter_Set IP
      \<lparr>configureInterface_res = None, dns_Set_res = None,
       EnableFirewall_res = None, DisableFirewall_res = None\<rparr>
      (Some \<lparr>LocalAddrs = [], Routes = [\<lparr>IP = ''0.0.0.0'', Bits = 0\<rparr>],
             DNS = \<lparr>Nameservers = [], Domains = []\<rparr>\<rparr>)
      (snd (winRouter_Set IP
        \<lparr>configureInterface_res = Some (Error ''no interface''), dns_Set_res = None,
         EnableFirewall_res = None, DisableFirewall_res = None\<rparr>
        (Some \<lparr>LocalAddrs = [], Routes = [\<lparr>IP = ''0.0.0.0'', Bits = 0\<rparr>],
               DNS = \<lparr>Nameservers = [], Domains = []\<rparr>\<rparr>) newRouter))))) = [EnableFirewall]"
  by (simp add: router_eval_defs)





end
